theory Spec2Isabelle
  imports Complex_Main "HOL-Library.Word" "HOL-Library.Multiset"
begin

unbundle bit_operations_syntax

section \<open>The data model of stdem.c\<close>

text \<open>
  The library is an integer-keyed hash table with separate chaining. The model follows
  the C source function by function. Conventions:
  \<^item> \<open>int\<close> keys and the \<open>StemFlags\<close> bit set are 32-bit words, a byte is an 8-bit word;
  \<^item> \<open>size_t\<close> quantities (\<open>count\<close>, \<open>value_size\<close>, \<open>num_buckets\<close>) are natural
    numbers: every one of them is bounded by the memory the process holds, so none of
    the increments of the source wraps;
  \<^item> a bucket chain (the \<open>next\<close> links of \<open>EnumEntry\<close>) is a list, head first, and the
    bucket array is a list of chains;
  \<^item> an \<open>EnumMap*\<close> argument is a valid handle: the \<open>if (!map)\<close> guards of the source,
    which return \<open>STEM_ERROR_INVALID_ARG\<close> before anything is read, have no counterpart;
  \<^item> the optional \<open>StemError* error\<close> output is always reported, as part of the result;
  \<^item> the two floating-point expressions (the load test of \<open>stdem_associate_ex\<close> and the
    initial width of \<open>stdem_create_ex\<close>) are modelled over the rationals. The constant
    0.75 is a binary fraction, and for table sizes below \<open>2^23\<close> the single-precision
    quotient compares with it exactly as the rational quotient does.
\<close>

type_synonym byte = "8 word"
type_synonym c_int = "32 word"
type_synonym StemFlags = "32 word"

datatype StemError =
    STEM_SUCCESS
  | STEM_ERROR_INVALID_ARG
  | STEM_ERROR_OUT_OF_MEMORY
  | STEM_ERROR_INDEX_OUT_OF_BOUNDS
  | STEM_ERROR_NOT_FOUND
  | STEM_ERROR_ALREADY_EXISTS
  | STEM_ERROR_UNINITIALIZED

definition STEM_FLAGS_NONE :: StemFlags where
  "STEM_FLAGS_NONE = 0"

definition STEM_FLAGS_NO_NAMES :: StemFlags where
  "STEM_FLAGS_NO_NAMES = push_bit 0 1"

definition STEM_FLAGS_READONLY :: StemFlags where
  "STEM_FLAGS_READONLY = push_bit 1 1"

definition STEM_FLAGS_COPY_VALUES :: StemFlags where
  "STEM_FLAGS_COPY_VALUES = push_bit 2 1"

text \<open>
  A \<open>void*\<close>: either \<open>NULL\<close>, or an address together with the bytes that can be read
  behind it. In a map with \<open>value_size > 0\<close> the stored pointer is a block the library
  allocated and filled; with \<open>value_size = 0\<close> it is whatever pointer the caller passed.
\<close>

datatype pointer = NullPtr | Ptr nat "byte list"

record EnumEntry =
  enum_value :: c_int
  name :: "string option"
  value_ptr :: pointer

record EnumMap =
  count :: nat
  value_size :: nat
  flags :: StemFlags
  buckets :: "EnumEntry list list"
  num_buckets :: nat

definition STEM_DEFAULT_BUCKETS :: nat where
  "STEM_DEFAULT_BUCKETS = 16"

definition STEM_LOAD_FACTOR :: rat where
  "STEM_LOAD_FACTOR = 3 / 4"

definition STEM_MAX_ENTRIES :: nat where
  "STEM_MAX_ENTRIES = 2 ^ 64 - 1"

subsection \<open>Allocation\<close>

text \<open>
  \<open>malloc\<close>, \<open>calloc\<close> and \<open>strdup\<close> either fail or return a fresh block. The allocator
  carries the number of the next block and a plan: the outcomes of the coming
  allocations, in order (\<open>False\<close>: the call returns \<open>NULL\<close>). Once the plan is used up
  every allocation succeeds. \<open>free\<close> has no effect a caller can observe and is left out.
\<close>

record allocator =
  next_block :: nat
  plan :: "bool list"

definition malloc :: "allocator \<Rightarrow> nat option \<times> allocator" where
  "malloc al =
     (case plan al of
        [] \<Rightarrow> (Some (next_block al), al\<lparr>next_block := Suc (next_block al)\<rparr>)
      | ok # rest \<Rightarrow>
          if ok then (Some (next_block al), \<lparr>next_block = Suc (next_block al), plan = rest\<rparr>)
          else (None, al\<lparr>plan := rest\<rparr>))"

text \<open>
  The \<open>n\<close> bytes that \<open>memcpy(dst, src, n)\<close> and \<open>fwrite(src, 1, n, stream)\<close> read
  behind \<open>src\<close>. The caller owes \<open>n\<close> readable bytes (fewer is undefined behaviour in C);
  the model reads zero bytes past the end of what it was given, so that a block of
  \<open>malloc(n)\<close> always holds \<open>n\<close> bytes. No call of the source reaches the \<open>NULL\<close> case
  without a guard, except where the model says so explicitly.
\<close>

fun memcpy :: "nat \<Rightarrow> pointer \<Rightarrow> byte list" where
  "memcpy n NullPtr = []"
| "memcpy n (Ptr a bs) = take n (bs @ replicate n 0)"

text \<open>A \<open>const char*\<close> argument denotes the characters up to the first NUL.\<close>

definition strdup :: "string \<Rightarrow> string" where
  "strdup s = takeWhile (\<lambda>c. c \<noteq> CHR 0x00) s"

section \<open>Hashing and lookup\<close>

definition stem_hash_int :: "c_int \<Rightarrow> 32 word" where
  "stem_hash_int v = v * 2654435761"

definition bucket_idx :: "nat \<Rightarrow> c_int \<Rightarrow> nat" where
  "bucket_idx n v = unat (stem_hash_int v) mod n"

definition stem_find_entry :: "EnumMap \<Rightarrow> c_int \<Rightarrow> EnumEntry option" where
  "stem_find_entry m v =
     find (\<lambda>entry. enum_value entry = v) (buckets m ! bucket_idx (num_buckets m) v)"

text \<open>The traversal \<open>for (i = 0; i < num_buckets; i++) for (entry = buckets[i]; entry;
  entry = entry->next)\<close> shared by resize, copy, merge, clear and serialize.\<close>

definition all_entries :: "EnumMap \<Rightarrow> EnumEntry list" where
  "all_entries m = concat (take (num_buckets m) (buckets m))"

section \<open>Resizing\<close>

definition rehash_entry :: "nat \<Rightarrow> EnumEntry \<Rightarrow> EnumEntry list list \<Rightarrow> EnumEntry list list" where
  "rehash_entry new_size entry new_buckets =
     (let new_bucket_idx = bucket_idx new_size (enum_value entry)
      in new_buckets[new_bucket_idx := entry # new_buckets ! new_bucket_idx])"

definition stem_resize_map :: "EnumMap \<Rightarrow> nat \<Rightarrow> allocator \<Rightarrow> StemError \<times> EnumMap \<times> allocator" where
  "stem_resize_map m new_size al =
     (if new_size = 0 then (STEM_ERROR_INVALID_ARG, m, al)
      else case malloc al of
        (None, al') \<Rightarrow> (STEM_ERROR_OUT_OF_MEMORY, m, al')
      | (Some _, al') \<Rightarrow>
          (STEM_SUCCESS,
           m\<lparr>buckets := fold (rehash_entry new_size) (all_entries m) (replicate new_size []),
             num_buckets := new_size\<rparr>,
           al'))"

section \<open>Entries\<close>

definition stem_create_entry ::
  "EnumMap \<Rightarrow> c_int \<Rightarrow> pointer \<Rightarrow> string option \<Rightarrow> allocator \<Rightarrow> (StemError + EnumEntry) \<times> allocator" where
  "stem_create_entry m v val nm al =
     (case malloc al of
        (None, al1) \<Rightarrow> (Inl STEM_ERROR_OUT_OF_MEMORY, al1)
      | (Some _, al1) \<Rightarrow>
         (case (if value_size m > 0 \<and> val \<noteq> NullPtr
                then (case malloc al1 of
                        (None, al2) \<Rightarrow> (None, al2)
                      | (Some a, al2) \<Rightarrow> (Some (Ptr a (memcpy (value_size m) val)), al2))
                else (Some val, al1)) of
            (None, al2) \<Rightarrow> (Inl STEM_ERROR_OUT_OF_MEMORY, al2)
          | (Some stored, al2) \<Rightarrow>
             (case nm of
                Some s \<Rightarrow>
                  if flags m AND STEM_FLAGS_NO_NAMES = 0
                  then (case malloc al2 of
                          (None, al3) \<Rightarrow> (Inl STEM_ERROR_OUT_OF_MEMORY, al3)
                        | (Some _, al3) \<Rightarrow>
                            (Inr \<lparr>enum_value = v, name = Some (strdup s), value_ptr = stored\<rparr>, al3))
                  else (Inr \<lparr>enum_value = v, name = None, value_ptr = stored\<rparr>, al2)
              | None \<Rightarrow> (Inr \<lparr>enum_value = v, name = None, value_ptr = stored\<rparr>, al2))))"

section \<open>The public operations\<close>

definition stdem_create_ex :: "nat \<Rightarrow> nat \<Rightarrow> StemFlags \<Rightarrow> allocator \<Rightarrow> (StemError + EnumMap) \<times> allocator" where
  "stdem_create_ex enum_count vsize fl al =
     (if enum_count = 0 \<or> enum_count > STEM_MAX_ENTRIES then (Inl STEM_ERROR_INVALID_ARG, al)
      else case malloc al of
        (None, al1) \<Rightarrow> (Inl STEM_ERROR_OUT_OF_MEMORY, al1)
      | (Some _, al1) \<Rightarrow>
         (let n = (if rat_of_nat enum_count > rat_of_nat STEM_DEFAULT_BUCKETS * STEM_LOAD_FACTOR
                   then nat \<lfloor>rat_of_nat enum_count / STEM_LOAD_FACTOR\<rfloor> + 1
                   else STEM_DEFAULT_BUCKETS)
          in case malloc al1 of
               (None, al2) \<Rightarrow> (Inl STEM_ERROR_OUT_OF_MEMORY, al2)
             | (Some _, al2) \<Rightarrow>
                 (Inr \<lparr>count = 0, value_size = vsize, flags = fl,
                       buckets = replicate n [], num_buckets = n\<rparr>, al2)))"

definition stdem_associate_ex ::
  "EnumMap \<Rightarrow> c_int \<Rightarrow> pointer \<Rightarrow> string option \<Rightarrow> allocator \<Rightarrow> StemError \<times> EnumMap \<times> allocator" where
  "stdem_associate_ex m v val nm al =
     (if flags m AND STEM_FLAGS_READONLY \<noteq> 0 then (STEM_ERROR_INVALID_ARG, m, al)
      else if stem_find_entry m v \<noteq> None then (STEM_ERROR_ALREADY_EXISTS, m, al)
      else
        case (if rat_of_nat (count m) / rat_of_nat (num_buckets m) > STEM_LOAD_FACTOR
              then stem_resize_map m (num_buckets m * 2) al
              else (STEM_SUCCESS, m, al)) of
          (error, m1, al1) \<Rightarrow>
            if error \<noteq> STEM_SUCCESS then (error, m1, al1)
            else case stem_create_entry m1 v val nm al1 of
              (Inl error, al2) \<Rightarrow> (error, m1, al2)
            | (Inr new_entry, al2) \<Rightarrow>
                (let idx = bucket_idx (num_buckets m1) v
                 in (STEM_SUCCESS,
                     m1\<lparr>buckets := (buckets m1)[idx := new_entry # buckets m1 ! idx],
                        count := Suc (count m1)\<rparr>,
                     al2)))"

definition stdem_get_value_ex :: "EnumMap \<Rightarrow> c_int \<Rightarrow> StemError \<times> pointer" where
  "stdem_get_value_ex m v =
     (case stem_find_entry m v of
        None \<Rightarrow> (STEM_ERROR_NOT_FOUND, NullPtr)
      | Some entry \<Rightarrow> (STEM_SUCCESS, value_ptr entry))"

definition stdem_get_name_ex :: "EnumMap \<Rightarrow> c_int \<Rightarrow> StemError \<times> string option" where
  "stdem_get_name_ex m v =
     (if flags m AND STEM_FLAGS_NO_NAMES \<noteq> 0 then (STEM_ERROR_NOT_FOUND, None)
      else case stem_find_entry m v of
        None \<Rightarrow> (STEM_ERROR_NOT_FOUND, None)
      | Some entry \<Rightarrow> (STEM_SUCCESS, name entry))"

definition stdem_count :: "EnumMap \<Rightarrow> nat" where
  "stdem_count m = count m"

definition stdem_clear :: "EnumMap \<Rightarrow> StemError \<times> EnumMap" where
  "stdem_clear m =
     (if flags m AND STEM_FLAGS_READONLY \<noteq> 0 then (STEM_ERROR_INVALID_ARG, m)
      else (STEM_SUCCESS, m\<lparr>buckets := map (\<lambda>_. []) (take (num_buckets m) (buckets m))
                                          @ drop (num_buckets m) (buckets m),
                             count := 0\<rparr>))"

section \<open>Copy\<close>

text \<open>The replay loop of \<open>stdem_copy\<close> and of the first half of \<open>stdem_merge\<close>: every
  entry of the source, in traversal order, goes through \<open>stdem_associate_ex\<close>; the first
  failure breaks out of both loops.\<close>

fun copy_entries :: "EnumMap \<Rightarrow> EnumEntry list \<Rightarrow> allocator \<Rightarrow> StemError \<times> EnumMap \<times> allocator" where
  "copy_entries new_map [] al = (STEM_SUCCESS, new_map, al)"
| "copy_entries new_map (entry # rest) al =
     (case stdem_associate_ex new_map (enum_value entry) (value_ptr entry) (name entry) al of
        (err, new_map', al') \<Rightarrow>
          if err \<noteq> STEM_SUCCESS then (err, new_map', al')
          else copy_entries new_map' rest al')"

definition stdem_copy :: "EnumMap \<Rightarrow> allocator \<Rightarrow> (StemError + EnumMap) \<times> allocator" where
  "stdem_copy m al =
     (case stdem_create_ex (count m) (value_size m) (flags m) al of
        (Inl error, al1) \<Rightarrow> (Inl error, al1)
      | (Inr new_map, al1) \<Rightarrow>
          (case copy_entries new_map (all_entries m) al1 of
             (err, new_map', al2) \<Rightarrow>
               if err \<noteq> STEM_SUCCESS then (Inl err, al2) else (Inr new_map', al2)))"

section \<open>Merge\<close>

text \<open>
  The overwrite branch of \<open>stdem_merge\<close> updates the node \<open>existing\<close> in place. With
  \<open>value_size > 0\<close> it calls \<open>memcpy(existing->value, entry->value, value_size)\<close> with no
  guard: when either pointer is \<open>NULL\<close> the behaviour is undefined, which the model
  reports as \<open>None\<close>. \<open>existing->name\<close> is assigned the result of \<open>strdup\<close> before it is
  tested, so a failed duplication leaves the node without a name.
\<close>

definition overwrite_entry ::
  "EnumMap \<Rightarrow> EnumEntry \<Rightarrow> EnumEntry \<Rightarrow> allocator \<Rightarrow> (StemError \<times> EnumEntry \<times> allocator) option" where
  "overwrite_entry new_map existing entry al =
     (case (if value_size new_map > 0
            then (case (value_ptr existing, value_ptr entry) of
                    (Ptr a dst, Ptr b src) \<Rightarrow>
                      Some (Ptr a (memcpy (value_size new_map) (Ptr b src) @ drop (value_size new_map) dst))
                  | _ \<Rightarrow> None)
            else Some (value_ptr entry)) of
        None \<Rightarrow> None
      | Some p \<Rightarrow>
          (case name entry of
             Some s \<Rightarrow>
               if flags new_map AND STEM_FLAGS_NO_NAMES = 0
               then (case malloc al of
                       (None, al') \<Rightarrow>
                         Some (STEM_ERROR_OUT_OF_MEMORY, existing\<lparr>name := None, value_ptr := p\<rparr>, al')
                     | (Some _, al') \<Rightarrow>
                         Some (STEM_SUCCESS, existing\<lparr>name := Some (strdup s), value_ptr := p\<rparr>, al'))
               else Some (STEM_SUCCESS, existing\<lparr>name := None, value_ptr := p\<rparr>, al)
           | None \<Rightarrow> Some (STEM_SUCCESS, existing\<lparr>name := None, value_ptr := p\<rparr>, al)))"

text \<open>Writing through the pointer \<open>existing\<close>: the first node of the chain with that key
  (the one \<open>stem_find_entry\<close> returned) is replaced.\<close>

fun update_first :: "c_int \<Rightarrow> EnumEntry \<Rightarrow> EnumEntry list \<Rightarrow> EnumEntry list" where
  "update_first v e' [] = []"
| "update_first v e' (e # es) = (if enum_value e = v then e' # es else e # update_first v e' es)"

definition store_entry :: "EnumMap \<Rightarrow> EnumEntry \<Rightarrow> EnumMap" where
  "store_entry m e' =
     (let idx = bucket_idx (num_buckets m) (enum_value e')
      in m\<lparr>buckets := (buckets m)[idx := update_first (enum_value e') e' (buckets m ! idx)]\<rparr>)"

fun merge_entries ::
  "bool \<Rightarrow> EnumMap \<Rightarrow> EnumEntry list \<Rightarrow> allocator \<Rightarrow> (StemError \<times> EnumMap \<times> allocator) option" where
  "merge_entries overwrite new_map [] al = Some (STEM_SUCCESS, new_map, al)"
| "merge_entries overwrite new_map (entry # rest) al =
     (case stem_find_entry new_map (enum_value entry) of
        Some existing \<Rightarrow>
          if overwrite
          then (case overwrite_entry new_map existing entry al of
                  None \<Rightarrow> None
                | Some (err, existing', al') \<Rightarrow>
                    if err \<noteq> STEM_SUCCESS then Some (err, store_entry new_map existing', al')
                    else merge_entries overwrite (store_entry new_map existing') rest al')
          else merge_entries overwrite new_map rest al
      | None \<Rightarrow>
          (case stdem_associate_ex new_map (enum_value entry) (value_ptr entry) (name entry) al of
             (err, new_map', al') \<Rightarrow>
               if err \<noteq> STEM_SUCCESS then Some (err, new_map', al')
               else merge_entries overwrite new_map' rest al'))"

text \<open>The result of \<open>stdem_merge\<close>: \<open>None\<close> when the run meets undefined behaviour,
  otherwise the error code (\<open>NULL\<close> returned) or the new map.\<close>

definition stdem_merge ::
  "EnumMap \<Rightarrow> EnumMap \<Rightarrow> bool \<Rightarrow> allocator \<Rightarrow> ((StemError + EnumMap) \<times> allocator) option" where
  "stdem_merge m1 m2 overwrite al =
     (if value_size m1 \<noteq> value_size m2 then Some (Inl STEM_ERROR_INVALID_ARG, al)
      else case stdem_create_ex (count m1 + count m2) (value_size m1)
                  (flags m1 OR flags m2) al of
        (Inl error, al1) \<Rightarrow> Some (Inl error, al1)
      | (Inr new_map, al1) \<Rightarrow>
          (case copy_entries new_map (all_entries m1) al1 of
             (err, new_map1, al2) \<Rightarrow>
               if err \<noteq> STEM_SUCCESS then Some (Inl err, al2)
               else (case merge_entries overwrite new_map1 (all_entries m2) al2 of
                       None \<Rightarrow> None
                     | Some (err, new_map2, al3) \<Rightarrow>
                         if err \<noteq> STEM_SUCCESS then Some (Inl err, al3)
                         else Some (Inr new_map2, al3))))"

section \<open>Serialization\<close>

text \<open>
  The binary layout is the one of an LP64 little-endian platform: \<open>size_t\<close> and pointers
  take 8 bytes, \<open>int\<close> and the \<open>StemFlags\<close> enum 4, \<open>uint16_t\<close> 2.
\<close>

fun le_bytes :: "nat \<Rightarrow> nat \<Rightarrow> byte list" where
  "le_bytes 0 x = []"
| "le_bytes (Suc n) x = of_nat (x mod 256) # le_bytes n (x div 256)"

fun le_nat :: "byte list \<Rightarrow> nat" where
  "le_nat [] = 0"
| "le_nat (b # bs) = unat b + 256 * le_nat bs"

definition byte_of_char :: "char \<Rightarrow> byte" where
  "byte_of_char c = of_nat (of_char c)"

definition char_of_byte :: "byte \<Rightarrow> char" where
  "char_of_byte b = char_of (unat b)"

definition STEM_MAGIC :: nat where
  "STEM_MAGIC = 0x454E554D"

definition STEM_VERSION :: nat where
  "STEM_VERSION = 1"

text \<open>An output stream accepts \<open>room\<close> more bytes. \<open>fwrite\<close> of an item that does not fit
  writes what fits and reports the short count.\<close>

record ostream =
  written :: "byte list"
  room :: nat

definition fwrite :: "byte list \<Rightarrow> ostream \<Rightarrow> bool \<times> ostream" where
  "fwrite bs s =
     (if length bs \<le> room s
      then (True, \<lparr>written = written s @ bs, room = room s - length bs\<rparr>)
      else (False, \<lparr>written = written s @ take (room s) bs, room = 0\<rparr>))"

text \<open>\<open>fread\<close> of \<open>n\<close> bytes from the rest of an input stream: the bytes and the new
  rest, or \<open>None\<close> on a short read.\<close>

definition fread :: "nat \<Rightarrow> byte list \<Rightarrow> (byte list \<times> byte list) option" where
  "fread n s = (if n \<le> length s then Some (take n s, drop n s) else None)"

text \<open>The chain of \<open>fwrite(...) != 1 ||\<close> tests of the header: the items are written in
  order up to the first failure.\<close>

fun fwrite_all :: "byte list list \<Rightarrow> ostream \<Rightarrow> bool \<times> ostream" where
  "fwrite_all [] s = (True, s)"
| "fwrite_all (item # items) s =
     (case fwrite item s of
        (False, s') \<Rightarrow> (False, s')
      | (True, s') \<Rightarrow> fwrite_all items s')"

definition strlen :: "string \<Rightarrow> nat" where
  "strlen s = length (takeWhile (\<lambda>c. c \<noteq> CHR 0x00) s)"

text \<open>The bit pattern of a pointer.\<close>

fun pointer_bytes :: "pointer \<Rightarrow> byte list" where
  "pointer_bytes NullPtr = le_bytes 8 0"
| "pointer_bytes (Ptr a bs) = le_bytes 8 a"

text \<open>
  One entry of the write loop. \<open>None\<close> is undefined behaviour: with \<open>value_size > 0\<close> the
  source passes \<open>entry->value\<close> to \<open>fwrite\<close> without testing it for \<open>NULL\<close>.
\<close>

definition write_entry :: "EnumMap \<Rightarrow> EnumEntry \<Rightarrow> ostream \<Rightarrow> (StemError \<times> ostream) option" where
  "write_entry m entry s =
     (case fwrite (le_bytes 4 (unat (enum_value entry))) s of
        (False, s1) \<Rightarrow> Some (STEM_ERROR_INVALID_ARG, s1)
      | (True, s1) \<Rightarrow>
         (let name_len = (case name entry of None \<Rightarrow> 0 | Some nm \<Rightarrow> strlen nm mod 65536)
          in case fwrite (le_bytes 2 name_len) s1 of
            (False, s2) \<Rightarrow> Some (STEM_ERROR_INVALID_ARG, s2)
          | (True, s2) \<Rightarrow>
             (case (if name_len > 0
                    then fwrite (map byte_of_char (take name_len (the (name entry)))) s2
                    else (True, s2)) of
                (False, s3) \<Rightarrow> Some (STEM_ERROR_INVALID_ARG, s3)
              | (True, s3) \<Rightarrow>
                 (if value_size m > 0
                  then (case value_ptr entry of
                          NullPtr \<Rightarrow> None
                        | Ptr a bs \<Rightarrow>
                           (case fwrite (memcpy (value_size m) (Ptr a bs)) s3 of
                              (False, s4) \<Rightarrow> Some (STEM_ERROR_INVALID_ARG, s4)
                            | (True, s4) \<Rightarrow> Some (STEM_SUCCESS, s4)))
                  else (case fwrite (pointer_bytes (value_ptr entry)) s3 of
                          (False, s4) \<Rightarrow> Some (STEM_ERROR_INVALID_ARG, s4)
                        | (True, s4) \<Rightarrow> Some (STEM_SUCCESS, s4))))))"

fun write_entries :: "EnumMap \<Rightarrow> EnumEntry list \<Rightarrow> ostream \<Rightarrow> (StemError \<times> ostream) option" where
  "write_entries m [] s = Some (STEM_SUCCESS, s)"
| "write_entries m (entry # rest) s =
     (case write_entry m entry s of
        None \<Rightarrow> None
      | Some (err, s') \<Rightarrow>
          if err \<noteq> STEM_SUCCESS then Some (err, s') else write_entries m rest s')"

definition stdem_serialize :: "EnumMap \<Rightarrow> ostream \<Rightarrow> (StemError \<times> ostream) option" where
  "stdem_serialize m stream =
     (case fwrite_all [le_bytes 4 STEM_MAGIC, le_bytes 2 STEM_VERSION, le_bytes 8 (count m),
                       le_bytes 8 (value_size m), le_bytes 4 (unat (flags m))] stream of
        (False, s) \<Rightarrow> Some (STEM_ERROR_INVALID_ARG, s)
      | (True, s) \<Rightarrow> write_entries m (all_entries m) s)"

text \<open>
  One round of the read loop of \<open>stdem_deserialize\<close>: the key, the name length, the name
  (into a temporary buffer, NUL-terminated), the value (into a temporary buffer when
  \<open>value_size > 0\<close>, else the 8 bytes of a pointer whose target the model does not know),
  then \<open>stdem_associate_ex\<close>.
\<close>

fun read_entries :: "nat \<Rightarrow> EnumMap \<Rightarrow> byte list \<Rightarrow> allocator \<Rightarrow> (StemError + EnumMap) \<times> allocator" where
  "read_entries 0 m s al = (Inr m, al)"
| "read_entries (Suc i) m s al =
     (case fread 4 s of
        None \<Rightarrow> (Inl STEM_ERROR_INVALID_ARG, al)
      | Some (key_bytes, s1) \<Rightarrow>
         (case fread 2 s1 of
            None \<Rightarrow> (Inl STEM_ERROR_INVALID_ARG, al)
          | Some (len_bytes, s2) \<Rightarrow>
             (let name_len = le_nat len_bytes
              in case (if name_len > 0
                       then (case malloc al of
                               (None, al1) \<Rightarrow> (Inl STEM_ERROR_OUT_OF_MEMORY, al1)
                             | (Some _, al1) \<Rightarrow>
                                (case fread name_len s2 of
                                   None \<Rightarrow> (Inl STEM_ERROR_INVALID_ARG, al1)
                                 | Some (name_bytes, s3) \<Rightarrow>
                                     (Inr (Some (map char_of_byte name_bytes), s3), al1)))
                       else (Inr (None, s2), al)) of
                   (Inl err, al1) \<Rightarrow> (Inl err, al1)
                 | (Inr (nm, s3), al1) \<Rightarrow>
                    (case (if value_size m > 0
                           then (case malloc al1 of
                                   (None, al2) \<Rightarrow> (Inl STEM_ERROR_OUT_OF_MEMORY, al2)
                                 | (Some a, al2) \<Rightarrow>
                                    (case fread (value_size m) s3 of
                                       None \<Rightarrow> (Inl STEM_ERROR_INVALID_ARG, al2)
                                     | Some (value_bytes, s4) \<Rightarrow> (Inr (Ptr a value_bytes, s4), al2)))
                           else (case fread 8 s3 of
                                   None \<Rightarrow> (Inl STEM_ERROR_INVALID_ARG, al1)
                                 | Some (ptr_bytes, s4) \<Rightarrow>
                                     (Inr (if le_nat ptr_bytes = 0 then NullPtr
                                           else Ptr (le_nat ptr_bytes) [], s4), al1))) of
                       (Inl err, al2) \<Rightarrow> (Inl err, al2)
                     | (Inr (val, s4), al2) \<Rightarrow>
                        (case stdem_associate_ex m (word_of_nat (le_nat key_bytes)) val nm al2 of
                           (err, m', al3) \<Rightarrow>
                             if err \<noteq> STEM_SUCCESS then (Inl err, al3)
                             else read_entries i m' s4 al3)))))"

definition stdem_deserialize :: "byte list \<Rightarrow> allocator \<Rightarrow> (StemError + EnumMap) \<times> allocator" where
  "stdem_deserialize stream al =
     (case fread 4 stream of
        None \<Rightarrow> (Inl STEM_ERROR_INVALID_ARG, al)
      | Some (magic, s1) \<Rightarrow>
         if le_nat magic \<noteq> STEM_MAGIC then (Inl STEM_ERROR_INVALID_ARG, al)
         else (case fread 2 s1 of
            None \<Rightarrow> (Inl STEM_ERROR_INVALID_ARG, al)
          | Some (version, s2) \<Rightarrow>
             if le_nat version \<noteq> STEM_VERSION then (Inl STEM_ERROR_INVALID_ARG, al)
             else (case fread 8 s2 of
                None \<Rightarrow> (Inl STEM_ERROR_INVALID_ARG, al)
              | Some (count_bytes, s3) \<Rightarrow>
                 (case fread 8 s3 of
                    None \<Rightarrow> (Inl STEM_ERROR_INVALID_ARG, al)
                  | Some (size_bytes, s4) \<Rightarrow>
                     (case fread 4 s4 of
                        None \<Rightarrow> (Inl STEM_ERROR_INVALID_ARG, al)
                      | Some (flag_bytes, s5) \<Rightarrow>
                         (case stdem_create_ex (le_nat count_bytes) (le_nat size_bytes)
                                 (word_of_nat (le_nat flag_bytes)) al of
                            (Inl error, al1) \<Rightarrow> (Inl error, al1)
                          | (Inr m, al1) \<Rightarrow> read_entries (le_nat count_bytes) m s5 al1))))))"

section \<open>Invariants of a map\<close>

text \<open>The keys of the live entries.\<close>

definition keys_of :: "EnumMap \<Rightarrow> c_int set" where
  "keys_of m = enum_value ` set (all_entries m)"

text \<open>Every entry sits in the chain its key hashes to.\<close>

definition placed :: "nat \<Rightarrow> EnumEntry list list \<Rightarrow> bool" where
  "placed n bs \<longleftrightarrow> (\<forall>i < n. \<forall>e \<in> set (bs ! i). bucket_idx n (enum_value e) = i)"

text \<open>A stored value of a map with \<open>value_size > 0\<close> is \<open>NULL\<close> or a block of \<open>value_size\<close>
  bytes; a stored name has no NUL in it, and a map flagged "no names" stores none.\<close>

definition entry_ok :: "nat \<Rightarrow> StemFlags \<Rightarrow> EnumEntry \<Rightarrow> bool" where
  "entry_ok vsize fl e \<longleftrightarrow>
     (case value_ptr e of NullPtr \<Rightarrow> True | Ptr a bs \<Rightarrow> vsize = 0 \<or> length bs = vsize) \<and>
     (case name e of None \<Rightarrow> True | Some s \<Rightarrow> CHR 0x00 \<notin> set s \<and> fl AND STEM_FLAGS_NO_NAMES = 0)"

definition map_inv :: "EnumMap \<Rightarrow> bool" where
  "map_inv m \<longleftrightarrow>
     STEM_DEFAULT_BUCKETS \<le> num_buckets m \<and>
     length (buckets m) = num_buckets m \<and>
     placed (num_buckets m) (buckets m) \<and>
     distinct (map enum_value (all_entries m)) \<and>
     count m = length (all_entries m) \<and>
     4 * count m \<le> 3 * num_buckets m + 4 \<and>
     (flags m AND STEM_FLAGS_READONLY \<noteq> 0 \<longrightarrow> count m = 0) \<and>
     list_all (entry_ok (value_size m) (flags m)) (all_entries m)"

text \<open>The maps a program can hold: results of the constructors, closed under the
  mutating operations (whatever they return).\<close>

inductive reachable :: "EnumMap \<Rightarrow> bool" where
  created: "stdem_create_ex n vsize fl al = (Inr m, al') \<Longrightarrow> reachable m"
| associated: "reachable m \<Longrightarrow> stdem_associate_ex m v val nm al = (err, m', al') \<Longrightarrow> reachable m'"
| cleared: "reachable m \<Longrightarrow> stdem_clear m = (err, m') \<Longrightarrow> reachable m'"
| copied: "reachable m \<Longrightarrow> stdem_copy m al = (Inr m', al') \<Longrightarrow> reachable m'"
| merged: "reachable m1 \<Longrightarrow> reachable m2 \<Longrightarrow>
           stdem_merge m1 m2 overwrite al = Some (Inr m', al') \<Longrightarrow> reachable m'"
| deserialized: "stdem_deserialize stream al = (Inr m, al') \<Longrightarrow> reachable m"

text \<open>What \<open>stem_create_entry\<close> builds from the arguments of an association.\<close>

definition built_from :: "EnumMap \<Rightarrow> c_int \<Rightarrow> pointer \<Rightarrow> string option \<Rightarrow> EnumEntry \<Rightarrow> bool" where
  "built_from m v val nm e \<longleftrightarrow>
     enum_value e = v \<and>
     name e = (if flags m AND STEM_FLAGS_NO_NAMES = 0 then map_option strdup nm else None) \<and>
     (if value_size m > 0 \<and> val \<noteq> NullPtr
      then \<exists>a. value_ptr e = Ptr a (memcpy (value_size m) val)
      else value_ptr e = val)"

text \<open>What a caller sees behind a pointer: nothing behind \<open>NULL\<close>, else the bytes.\<close>

fun pointee :: "pointer \<Rightarrow> byte list option" where
  "pointee NullPtr = None"
| "pointee (Ptr a bs) = Some bs"

text \<open>The stages of an association: the load test, the grown table, the table the new
  entry is linked into, and the linking itself.\<close>

definition load_exceeded :: "EnumMap \<Rightarrow> bool" where
  "load_exceeded m \<longleftrightarrow> rat_of_nat (count m) / rat_of_nat (num_buckets m) > STEM_LOAD_FACTOR"

definition grown :: "EnumMap \<Rightarrow> EnumMap" where
  "grown m = m\<lparr>buckets := fold (rehash_entry (num_buckets m * 2)) (all_entries m)
                              (replicate (num_buckets m * 2) []),
               num_buckets := num_buckets m * 2\<rparr>"

definition pre_insert :: "EnumMap \<Rightarrow> EnumMap" where
  "pre_insert m = (if load_exceeded m then grown m else m)"

definition link_entry :: "EnumMap \<Rightarrow> EnumEntry \<Rightarrow> EnumMap" where
  "link_entry m e =
     (let idx = bucket_idx (num_buckets m) (enum_value e)
      in m\<lparr>buckets := (buckets m)[idx := e # buckets m ! idx], count := Suc (count m)\<rparr>)"

text \<open>The entry a replay (copy, merge) builds in map \<open>m\<close> from a source entry.\<close>

definition copy_of :: "EnumMap \<Rightarrow> EnumEntry \<Rightarrow> EnumEntry \<Rightarrow> bool" where
  "copy_of m e e' = built_from m (enum_value e) (value_ptr e) (name e) e'"

section \<open>The specification's formulas and example inputs\<close>


text \<open>An allocator that never fails.\<close>

definition alloc_ok :: allocator where
  "alloc_ok = \<lparr>next_block = 0, plan = []\<rparr>"

text \<open>A fresh map: the result of \<open>stdem_create_ex\<close>, or nothing to speak of when it fails.\<close>

definition fresh_map :: "nat \<Rightarrow> nat \<Rightarrow> StemFlags \<Rightarrow> EnumMap" where
  "fresh_map n vsize fl =
     (case fst (stdem_create_ex n vsize fl alloc_ok) of
        Inr m \<Rightarrow> m
      | Inl _ \<Rightarrow> \<lparr>count = 0, value_size = 0, flags = 0, buckets = [], num_buckets = 0\<rparr>)"





text \<open>The map of the test suite's \<open>test_error_handling\<close>: created for 5 entries of
  \<open>sizeof(int)\<close> bytes, key 1 associated with the value 42 and the name \<open>TEST\<close>.\<close>

definition one_entry :: EnumMap where
  "one_entry = fst (snd (stdem_associate_ex (fresh_map 5 4 STEM_FLAGS_NONE) 1
                           (Ptr 1000 [42, 0, 0, 0]) (Some ''TEST'') alloc_ok))"

text \<open>The first map of \<open>test_flags\<close>: created with \<open>STEM_FLAGS_NO_NAMES\<close>, key 1 associated
  with a value and the name \<open>STATE_IDLE\<close>.\<close>

definition no_names_entry :: EnumMap where
  "no_names_entry = fst (snd (stdem_associate_ex (fresh_map 5 4 STEM_FLAGS_NO_NAMES) 1
                                (Ptr 1000 [100, 0, 0, 0]) (Some ''STATE_IDLE'') alloc_ok))"

text \<open>A map created with \<open>value_size = 0\<close> and \<open>STEM_FLAGS_COPY_VALUES\<close>.\<close>

definition copy_flag_map :: EnumMap where
  "copy_flag_map = fresh_map 5 0 STEM_FLAGS_COPY_VALUES"

text \<open>The fixture of the test suite: five states with the values 100 to 500 (as
  little-endian \<open>int\<close>s) behind the caller's pointers, and the map \<open>test_copy\<close> builds.\<close>

definition test_entries :: "EnumEntry list" where
  "test_entries =
     [\<lparr>enum_value = 1, name = Some ''STATE_IDLE'', value_ptr = Ptr 1008 [100, 0, 0, 0]\<rparr>,
      \<lparr>enum_value = 2, name = Some ''STATE_ACTIVE'', value_ptr = Ptr 1024 [200, 0, 0, 0]\<rparr>,
      \<lparr>enum_value = 3, name = Some ''STATE_ERROR'', value_ptr = Ptr 1040 [44, 1, 0, 0]\<rparr>,
      \<lparr>enum_value = 4, name = Some ''STATE_SHUTDOWN'', value_ptr = Ptr 1056 [144, 1, 0, 0]\<rparr>,
      \<lparr>enum_value = 5, name = Some ''STATE_INIT'', value_ptr = Ptr 1072 [244, 1, 0, 0]\<rparr>]"

definition test_map :: EnumMap where
  "test_map = fst (snd (copy_entries (fresh_map 5 4 STEM_FLAGS_NONE) test_entries alloc_ok))"

definition test_copy :: EnumMap where
  "test_copy = projr (fst (stdem_copy test_map alloc_ok))"

text \<open>The two maps of \<open>test_merge\<close>, overlapping in key 3, and their merges.\<close>

definition merge_map1 :: EnumMap where
  "merge_map1 = fst (snd (copy_entries (fresh_map 3 4 STEM_FLAGS_NONE)
     [\<lparr>enum_value = 1, name = Some ''ENTRY_1'', value_ptr = Ptr 2000 [100, 0, 0, 0]\<rparr>,
      \<lparr>enum_value = 2, name = Some ''ENTRY_2'', value_ptr = Ptr 2004 [200, 0, 0, 0]\<rparr>,
      \<lparr>enum_value = 3, name = Some ''ENTRY_3'', value_ptr = Ptr 2008 [44, 1, 0, 0]\<rparr>]
     alloc_ok))"

definition merge_map2 :: EnumMap where
  "merge_map2 = fst (snd (copy_entries (fresh_map 3 4 STEM_FLAGS_NONE)
     [\<lparr>enum_value = 3, name = Some ''ENTRY_3_NEW'', value_ptr = Ptr 3000 [144, 1, 0, 0]\<rparr>,
      \<lparr>enum_value = 4, name = Some ''ENTRY_4'', value_ptr = Ptr 3004 [244, 1, 0, 0]\<rparr>,
      \<lparr>enum_value = 5, name = Some ''ENTRY_5'', value_ptr = Ptr 3008 [88, 2, 0, 0]\<rparr>]
     alloc_ok))"

definition merged :: "bool \<Rightarrow> EnumMap" where
  "merged overwrite = projr (fst (the (stdem_merge merge_map1 merge_map2 overwrite alloc_ok)))"

subsection \<open>Chains and bucket arrays\<close>

lemma mset_concat_prepend:
  "i < length bs \<Longrightarrow> mset (concat (bs[i := e # bs ! i])) = add_mset e (mset (concat bs))"
proof (induction bs arbitrary: i)
  case Nil
  then show ?case by simp
next
  case (Cons b bs)
  then show ?case by (cases i) auto
qed

lemma placed_prepend:
  assumes "placed n bs" and "bucket_idx n (enum_value e) = i" and "length bs = n"
  shows "placed n (bs[i := e # bs ! i])"
  unfolding placed_def
proof (intro allI impI ballI)
  fix j e'
  assume j: "j < n" and mem: "e' \<in> set (bs[i := e # bs ! i] ! j)"
  show "bucket_idx n (enum_value e') = j"
  proof (cases "j = i")
    case True
    with mem j assms have "e' = e \<or> e' \<in> set (bs ! i)" by auto
    with assms True j show ?thesis by (auto simp: placed_def)
  next
    case False
    with mem have "e' \<in> set (bs ! j)" by simp
    with assms j show ?thesis by (auto simp: placed_def)
  qed
qed

lemma placed_replicate: "placed n (replicate n [])"
  by (simp add: placed_def)

lemma bucket_idx_less: "0 < n \<Longrightarrow> bucket_idx n v < n"
  by (simp add: bucket_idx_def)

lemma in_concat_nth:
  "e \<in> set (concat bs) \<longleftrightarrow> (\<exists>i < length bs. e \<in> set (bs ! i))"
proof
  assume "e \<in> set (concat bs)"
  then obtain b where "b \<in> set bs" and "e \<in> set b" by auto
  then show "\<exists>i < length bs. e \<in> set (bs ! i)"
    by (metis in_set_conv_nth)
next
  assume "\<exists>i < length bs. e \<in> set (bs ! i)"
  then show "e \<in> set (concat bs)"
    using nth_mem by auto
qed

lemma distinct_keys_eq:
  assumes "distinct (map enum_value es)" and "e \<in> set es" and "e' \<in> set es"
    and "enum_value e = enum_value e'"
  shows "e = e'"
  using assms by (meson distinct_map inj_onD)

lemma find_in_chain:
  assumes len: "length bs = n" and n: "0 < n" and pl: "placed n bs"
    and dist: "distinct (map enum_value (concat bs))"
  shows "find (\<lambda>entry. enum_value entry = v) (bs ! bucket_idx n v) = Some e
         \<longleftrightarrow> e \<in> set (concat bs) \<and> enum_value e = v"
proof
  assume "find (\<lambda>entry. enum_value entry = v) (bs ! bucket_idx n v) = Some e"
  then have "e \<in> set (bs ! bucket_idx n v)" and "enum_value e = v"
    by (auto simp: find_Some_iff)
  with len n show "e \<in> set (concat bs) \<and> enum_value e = v"
    using bucket_idx_less [of n v] by (auto simp: in_concat_nth)
next
  assume R: "e \<in> set (concat bs) \<and> enum_value e = v"
  then obtain i where i: "i < length bs" "e \<in> set (bs ! i)"
    using in_concat_nth by metis
  with pl len R have "i = bucket_idx n v"
    by (auto simp: placed_def)
  with i have mem: "e \<in> set (bs ! bucket_idx n v)" by simp
  then obtain e' where f: "find (\<lambda>entry. enum_value entry = v) (bs ! bucket_idx n v) = Some e'"
    using R by (cases "find (\<lambda>entry. enum_value entry = v) (bs ! bucket_idx n v)")
      (auto simp: find_None_iff)
  then have "e' \<in> set (bs ! bucket_idx n v)" and "enum_value e' = v"
    by (auto simp: find_Some_iff)
  then have "e' \<in> set (concat bs)"
    using len n bucket_idx_less [of n v] by (auto simp: in_concat_nth)
  with dist R \<open>enum_value e' = v\<close> have "e' = e"
    using distinct_keys_eq by metis
  with f show "find (\<lambda>entry. enum_value entry = v) (bs ! bucket_idx n v) = Some e" by simp
qed

lemma find_in_chain_None:
  assumes len: "length bs = n" and n: "0 < n" and pl: "placed n bs"
  shows "find (\<lambda>entry. enum_value entry = v) (bs ! bucket_idx n v) = None
         \<longleftrightarrow> v \<notin> enum_value ` set (concat bs)"
proof
  assume N: "find (\<lambda>entry. enum_value entry = v) (bs ! bucket_idx n v) = None"
  show "v \<notin> enum_value ` set (concat bs)"
  proof
    assume "v \<in> enum_value ` set (concat bs)"
    then obtain e where "enum_value e = v" "e \<in> set (concat bs)"
      by auto
    then obtain e i where e: "enum_value e = v" "i < length bs" "e \<in> set (bs ! i)"
      using in_concat_nth by metis
    with pl len have "i = bucket_idx n v" by (auto simp: placed_def)
    with e N show False by (auto simp: find_None_iff)
  qed
next
  assume A: "v \<notin> enum_value ` set (concat bs)"
  have "bs ! bucket_idx n v \<in> set bs"
    using len n bucket_idx_less [of n v] by simp
  then have "\<And>e. e \<in> set (bs ! bucket_idx n v) \<Longrightarrow> e \<in> set (concat bs)"
    by auto
  with A show "find (\<lambda>entry. enum_value entry = v) (bs ! bucket_idx n v) = None"
    by (auto simp: find_None_iff)
qed

subsection \<open>Rehashing\<close>

lemma length_rehash_entry: "length (rehash_entry n e bs) = length bs"
  by (simp add: rehash_entry_def Let_def)

lemma length_fold_rehash: "length (fold (rehash_entry n) es bs) = length bs"
  by (induction es arbitrary: bs) (auto simp: length_rehash_entry)

lemma mset_fold_rehash:
  "0 < n \<Longrightarrow> length bs = n \<Longrightarrow>
   mset (concat (fold (rehash_entry n) es bs)) = mset es + mset (concat bs)"
proof (induction es arbitrary: bs)
  case Nil
  then show ?case by simp
next
  case (Cons e es)
  have "length (rehash_entry n e bs) = n"
    using Cons.prems by (simp add: length_rehash_entry)
  moreover have "mset (concat (rehash_entry n e bs)) = add_mset e (mset (concat bs))"
    using Cons.prems bucket_idx_less [of n "enum_value e"]
    by (simp add: rehash_entry_def Let_def mset_concat_prepend)
  ultimately show ?case
    using Cons.IH [of "rehash_entry n e bs"] Cons.prems by simp
qed

lemma placed_fold_rehash:
  "placed n bs \<Longrightarrow> length bs = n \<Longrightarrow> placed n (fold (rehash_entry n) es bs)"
proof (induction es arbitrary: bs)
  case Nil
  then show ?case by simp
next
  case (Cons e es)
  have "placed n (rehash_entry n e bs)"
    using Cons.prems by (simp add: rehash_entry_def Let_def placed_prepend)
  then show ?case using Cons.IH Cons.prems by (simp add: length_rehash_entry)
qed

lemma load_exceeded_iff:
  "0 < num_buckets m \<Longrightarrow> load_exceeded m \<longleftrightarrow> 3 * num_buckets m < 4 * count m"
proof -
  assume n: "0 < num_buckets m"
  have "load_exceeded m \<longleftrightarrow> rat_of_nat 3 / rat_of_nat 4 < rat_of_nat (count m) / rat_of_nat (num_buckets m)"
    by (simp add: load_exceeded_def STEM_LOAD_FACTOR_def)
  also have "\<dots> \<longleftrightarrow> rat_of_nat 3 * rat_of_nat (num_buckets m) < rat_of_nat (count m) * rat_of_nat 4"
    using n by (subst frac_less_eq) (simp_all add: field_simps)
  also have "\<dots> \<longleftrightarrow> rat_of_nat (3 * num_buckets m) < rat_of_nat (4 * count m)"
    by (simp add: mult.commute)
  also have "\<dots> \<longleftrightarrow> 3 * num_buckets m < 4 * count m"
    by (rule of_nat_less_iff)
  finally show ?thesis .
qed

lemma load_exceeded_pos: "load_exceeded m \<Longrightarrow> 0 < num_buckets m"
  by (cases "num_buckets m = 0") (auto simp: load_exceeded_def STEM_LOAD_FACTOR_def)

lemma stem_create_entry_key:
  "stem_create_entry m v val nm al = (Inr e, al') \<Longrightarrow> enum_value e = v"
  by (auto simp: stem_create_entry_def split: prod.splits option.splits if_splits)

lemma stem_create_entry_built:
  "stem_create_entry m v val nm al = (Inr e, al') \<Longrightarrow> built_from m v val nm e"
  by (auto simp: stem_create_entry_def built_from_def split: prod.splits option.splits if_splits)

lemma stem_create_entry_error:
  "stem_create_entry m v val nm al = (Inl err, al') \<Longrightarrow> err = STEM_ERROR_OUT_OF_MEMORY"
  by (auto simp: stem_create_entry_def split: prod.splits option.splits if_splits)

lemma associate_E:
  assumes "stdem_associate_ex m v val nm al = (err, m', al')"
  obtains
    (readonly) "flags m AND STEM_FLAGS_READONLY \<noteq> 0" "err = STEM_ERROR_INVALID_ARG" "m' = m" "al' = al"
  | (present) "flags m AND STEM_FLAGS_READONLY = 0" "stem_find_entry m v \<noteq> None"
      "err = STEM_ERROR_ALREADY_EXISTS" "m' = m" "al' = al"
  | (grow_failed) "flags m AND STEM_FLAGS_READONLY = 0" "stem_find_entry m v = None"
      "load_exceeded m" "fst (malloc al) = None"
      "err = STEM_ERROR_OUT_OF_MEMORY" "m' = m" "al' = snd (malloc al)"
  | (entry_failed) al1 where "flags m AND STEM_FLAGS_READONLY = 0" "stem_find_entry m v = None"
      "al1 = (if load_exceeded m then snd (malloc al) else al)"
      "load_exceeded m \<longrightarrow> fst (malloc al) \<noteq> None"
      "stem_create_entry (pre_insert m) v val nm al1 = (Inl err, al')"
      "err = STEM_ERROR_OUT_OF_MEMORY" "m' = pre_insert m"
  | (inserted) al1 e where "flags m AND STEM_FLAGS_READONLY = 0" "stem_find_entry m v = None"
      "al1 = (if load_exceeded m then snd (malloc al) else al)"
      "load_exceeded m \<longrightarrow> fst (malloc al) \<noteq> None"
      "stem_create_entry (pre_insert m) v val nm al1 = (Inr e, al')"
      "err = STEM_SUCCESS" "m' = link_entry (pre_insert m) e"
proof (cases "flags m AND STEM_FLAGS_READONLY \<noteq> 0")
  case True
  with assms show ?thesis
    by (intro readonly) (auto simp: stdem_associate_ex_def)
next
  case ro: False
  show ?thesis
  proof (cases "stem_find_entry m v \<noteq> None")
    case True
    with assms ro show ?thesis
      by (intro present) (auto simp: stdem_associate_ex_def)
  next
    case absent: False
    define r where "r = (if load_exceeded m then stem_resize_map m (num_buckets m * 2) al
                         else (STEM_SUCCESS, m, al))"
    obtain error m1 al1 where r: "r = (error, m1, al1)"
      by (cases r)
    obtain res al2 where c: "stem_create_entry m1 v val nm al1 = (res, al2)"
      by (cases "stem_create_entry m1 v val nm al1")
    have unf: "stdem_associate_ex m v val nm al =
      (if error \<noteq> STEM_SUCCESS then (error, m1, al1)
       else case res of
           Inl error \<Rightarrow> (error, m1, al2)
         | Inr new_entry \<Rightarrow>
             (STEM_SUCCESS,
              m1\<lparr>buckets := (buckets m1)[bucket_idx (num_buckets m1) v :=
                   new_entry # buckets m1 ! bucket_idx (num_buckets m1) v],
                 count := Suc (count m1)\<rparr>, al2))"
      using ro absent r c unfolding stdem_associate_ex_def r_def load_exceeded_def Let_def
      by (simp split: sum.splits)
    have "res = Inr e \<Longrightarrow> enum_value e = v" for e
      using c stem_create_entry_key by blast
    then have eq: "(err, m', al') =
      (if error \<noteq> STEM_SUCCESS then (error, m1, al1)
       else case res of
           Inl error \<Rightarrow> (error, m1, al2)
         | Inr new_entry \<Rightarrow> (STEM_SUCCESS, link_entry m1 new_entry, al2))"
      using assms unf by (auto simp: link_entry_def Let_def split: sum.splits)
    show ?thesis
    proof (cases "load_exceeded m \<and> fst (malloc al) = None")
      case True
      then have "r = (STEM_ERROR_OUT_OF_MEMORY, m, snd (malloc al))"
        using load_exceeded_pos [of m]
        by (auto simp: r_def stem_resize_map_def split: prod.splits option.splits)
      with eq r True ro absent show ?thesis
        by (intro grow_failed) auto
    next
      case False
      define al1' where "al1' = (if load_exceeded m then snd (malloc al) else al)"
      from False have "r = (STEM_SUCCESS, pre_insert m, al1')"
        using load_exceeded_pos [of m]
        by (auto simp: r_def al1'_def pre_insert_def grown_def stem_resize_map_def
                 split: prod.splits option.splits)
      with r have r': "error = STEM_SUCCESS" "m1 = pre_insert m" "al1 = al1'" by auto
      show ?thesis
      proof (cases res)
        case (Inl e)
        with eq r' have "err = e" "m' = pre_insert m" "al' = al2" by auto
        moreover from c Inl have "e = STEM_ERROR_OUT_OF_MEMORY"
          using stem_create_entry_error by blast
        ultimately show ?thesis
          using ro absent False c Inl al1'_def r' by (intro entry_failed [of al1']) auto
      next
        case (Inr e)
        with eq r' have "err = STEM_SUCCESS" "m' = link_entry (pre_insert m) e" "al' = al2"
          by auto
        then show ?thesis
          using ro absent False c Inr al1'_def r' by (intro inserted [of al1' e]) auto
      qed
    qed
  qed
qed

lemma all_entries_concat: "length (buckets m) = num_buckets m \<Longrightarrow> all_entries m = concat (buckets m)"
  by (simp add: all_entries_def)

lemma map_inv_pos: "map_inv m \<Longrightarrow> 0 < num_buckets m"
  by (simp add: map_inv_def STEM_DEFAULT_BUCKETS_def)

lemma find_entry_Some_iff:
  assumes "map_inv m"
  shows "stem_find_entry m v = Some e \<longleftrightarrow> e \<in> set (all_entries m) \<and> enum_value e = v"
proof -
  from assms have len: "length (buckets m) = num_buckets m" and n: "0 < num_buckets m"
    and pl: "placed (num_buckets m) (buckets m)"
    by (simp_all add: map_inv_def STEM_DEFAULT_BUCKETS_def)
  have ae: "all_entries m = concat (buckets m)"
    using len by (rule all_entries_concat)
  with assms have "distinct (map enum_value (concat (buckets m)))"
    by (simp add: map_inv_def)
  from find_in_chain [OF len n pl this] show ?thesis
    by (simp add: stem_find_entry_def ae)
qed

lemma find_entry_None_iff:
  assumes "map_inv m"
  shows "stem_find_entry m v = None \<longleftrightarrow> v \<notin> keys_of m"
proof -
  from assms have len: "length (buckets m) = num_buckets m" and n: "0 < num_buckets m"
    and pl: "placed (num_buckets m) (buckets m)"
    by (simp_all add: map_inv_def STEM_DEFAULT_BUCKETS_def)
  have ae: "all_entries m = concat (buckets m)"
    using len by (rule all_entries_concat)
  from find_in_chain_None [OF len n pl] show ?thesis
    by (simp add: stem_find_entry_def keys_of_def ae)
qed


lemma find_entry_added:
  assumes "map_inv m" and "map_inv m'"
    and "set (all_entries m') = insert e (set (all_entries m))"
  shows "stem_find_entry m' v = (if v = enum_value e then Some e else stem_find_entry m v)"
proof (cases "v = enum_value e")
  case True
  with assms show ?thesis by (simp add: find_entry_Some_iff)
next
  case False
  show ?thesis
  proof (cases "stem_find_entry m v")
    case None
    then have "v \<notin> keys_of m"
      using assms(1) by (simp add: find_entry_None_iff)
    then have "v \<notin> keys_of m'"
      using assms(3) False by (auto simp: keys_of_def)
    then have "stem_find_entry m' v = None"
      using assms(2) by (simp add: find_entry_None_iff)
    with None False show ?thesis by simp
  next
    case (Some e')
    then have "e' \<in> set (all_entries m) \<and> enum_value e' = v"
      using assms(1) by (simp add: find_entry_Some_iff)
    then have "stem_find_entry m' v = Some e'"
      using assms(2,3) by (simp add: find_entry_Some_iff)
    with Some False show ?thesis by simp
  qed
qed

subsection \<open>Growing\<close>

lemma grown_fields [simp]:
  "count (grown m) = count m" "value_size (grown m) = value_size m" "flags (grown m) = flags m"
  "num_buckets (grown m) = num_buckets m * 2"
  by (simp_all add: grown_def)

lemma length_buckets_grown: "length (buckets (grown m)) = num_buckets m * 2"
  by (simp add: grown_def length_fold_rehash)

lemma mset_grown:
  "0 < num_buckets m \<Longrightarrow> mset (all_entries (grown m)) = mset (all_entries m)"
proof -
  assume n: "0 < num_buckets m"
  have "all_entries (grown m) = concat (buckets (grown m))"
    by (rule all_entries_concat) (simp add: length_buckets_grown)
  moreover have "mset (concat (buckets (grown m))) = mset (all_entries m) + mset (concat (replicate (num_buckets m * 2) []))"
    unfolding grown_def using n by (simp add: mset_fold_rehash)
  ultimately show ?thesis by simp
qed

lemma placed_grown: "placed (num_buckets m * 2) (buckets (grown m))"
  unfolding grown_def by (simp add: placed_fold_rehash placed_replicate)

lemma distinct_keys_mset:
  "mset es' = mset es \<Longrightarrow> distinct (map enum_value es') = distinct (map enum_value es)"
  by (metis mset_eq_imp_distinct_iff mset_map)

lemma list_all_mset:
  "mset es' = mset es \<Longrightarrow> list_all P es' = list_all P es"
  by (metis list_all_iff mset_eq_setD)

lemma map_inv_grown:
  assumes "map_inv m"
  shows "map_inv (grown m)"
proof -
  have n: "0 < num_buckets m" using assms by (rule map_inv_pos)
  have ms: "mset (all_entries (grown m)) = mset (all_entries m)"
    using n by (rule mset_grown)
  have "length (all_entries (grown m)) = length (all_entries m)"
    using ms by (rule mset_eq_length)
  moreover have "distinct (map enum_value (all_entries (grown m)))"
    using assms distinct_keys_mset [OF ms] by (simp add: map_inv_def)
  moreover have "list_all (entry_ok (value_size m) (flags m)) (all_entries (grown m))"
    using assms list_all_mset [OF ms] by (simp add: map_inv_def)
  ultimately show ?thesis
    using assms unfolding map_inv_def
    by (auto simp: length_buckets_grown placed_grown)
qed

lemma map_inv_pre_insert:
  assumes "map_inv m"
  shows "map_inv (pre_insert m)"
    and "mset (all_entries (pre_insert m)) = mset (all_entries m)"
    and "4 * count (pre_insert m) \<le> 3 * num_buckets (pre_insert m)"
    and "count (pre_insert m) = count m" and "flags (pre_insert m) = flags m"
    and "value_size (pre_insert m) = value_size m"
proof -
  have n: "0 < num_buckets m" using assms by (rule map_inv_pos)
  show "map_inv (pre_insert m)"
    using assms by (simp add: pre_insert_def map_inv_grown)
  show "mset (all_entries (pre_insert m)) = mset (all_entries m)"
    using n by (simp add: pre_insert_def mset_grown)
  show "4 * count (pre_insert m) \<le> 3 * num_buckets (pre_insert m)"
    using assms n load_exceeded_iff [OF n]
    by (auto simp: pre_insert_def map_inv_def STEM_DEFAULT_BUCKETS_def)
  show "count (pre_insert m) = count m" "flags (pre_insert m) = flags m"
    "value_size (pre_insert m) = value_size m"
    by (simp_all add: pre_insert_def)
qed

subsection \<open>Linking a new entry\<close>

lemma link_entry_fields [simp]:
  "count (link_entry m e) = Suc (count m)" "value_size (link_entry m e) = value_size m"
  "flags (link_entry m e) = flags m" "num_buckets (link_entry m e) = num_buckets m"
  "length (buckets (link_entry m e)) = length (buckets m)"
  by (simp_all add: link_entry_def Let_def)

lemma mset_link_entry:
  assumes "length (buckets m) = num_buckets m" and "0 < num_buckets m"
  shows "mset (all_entries (link_entry m e)) = add_mset e (mset (all_entries m))"
proof -
  have "all_entries (link_entry m e) = concat (buckets (link_entry m e))"
    using assms by (intro all_entries_concat) simp
  moreover have "bucket_idx (num_buckets m) (enum_value e) < length (buckets m)"
    using assms bucket_idx_less by simp
  ultimately show ?thesis
    using assms by (simp add: link_entry_def Let_def mset_concat_prepend all_entries_concat)
qed

lemma map_inv_link_entry:
  assumes inv: "map_inv m" and load: "4 * count m \<le> 3 * num_buckets m"
    and fresh: "enum_value e \<notin> keys_of m" and ok: "entry_ok (value_size m) (flags m) e"
    and rw: "flags m AND STEM_FLAGS_READONLY = 0"
  shows "map_inv (link_entry m e)"
proof -
  have len: "length (buckets m) = num_buckets m" and n: "0 < num_buckets m"
    using inv by (simp_all add: map_inv_def STEM_DEFAULT_BUCKETS_def)
  have ms: "mset (all_entries (link_entry m e)) = add_mset e (mset (all_entries m))"
    using len n by (rule mset_link_entry)
  then have "mset (all_entries (link_entry m e)) = mset (e # all_entries m)" by simp
  note ms' = this
  have "length (all_entries (link_entry m e)) = Suc (length (all_entries m))"
    using mset_eq_length [OF ms'] by simp
  moreover have "distinct (map enum_value (all_entries (link_entry m e)))"
    using inv fresh distinct_keys_mset [OF ms'] by (simp add: map_inv_def keys_of_def)
  moreover have "list_all (entry_ok (value_size m) (flags m)) (all_entries (link_entry m e))"
    using inv ok list_all_mset [OF ms'] by (simp add: map_inv_def)
  moreover have "placed (num_buckets m) (buckets (link_entry m e))"
    using inv len by (simp add: link_entry_def Let_def placed_prepend map_inv_def)
  ultimately show ?thesis
    using inv load rw unfolding map_inv_def by auto
qed

lemma built_from_ok: "built_from m v val nm e \<Longrightarrow> entry_ok (value_size m) (flags m) e"
proof -
  assume b: "built_from m v val nm e"
  have "CHR 0x00 \<notin> set (strdup s)" for s
    unfolding strdup_def using set_takeWhileD by fastforce
  moreover have "length (memcpy n (Ptr a bs)) = n" for n a bs
    by simp
  ultimately show ?thesis
    using b unfolding built_from_def entry_ok_def
    by (cases val; cases nm) (auto split: if_splits)
qed

lemma built_from_pre_insert: "built_from (pre_insert m) v val nm e = built_from m v val nm e"
  by (simp add: built_from_def pre_insert_def)

lemma associate_success:
  assumes inv: "map_inv m" and a: "stdem_associate_ex m v val nm al = (STEM_SUCCESS, m', al')"
  shows "map_inv m'"
    and "\<exists>e. built_from m v val nm e \<and> mset (all_entries m') = add_mset e (mset (all_entries m))"
    and "v \<notin> keys_of m" and "flags m AND STEM_FLAGS_READONLY = 0"
    and "flags m' = flags m" and "value_size m' = value_size m" and "count m' = Suc (count m)"
    and "num_buckets m' = (if load_exceeded m then num_buckets m * 2 else num_buckets m)"
proof -
  from a obtain al1 e where rw: "flags m AND STEM_FLAGS_READONLY = 0"
    and absent: "stem_find_entry m v = None"
    and c: "stem_create_entry (pre_insert m) v val nm al1 = (Inr e, al')"
    and m': "m' = link_entry (pre_insert m) e"
    by (cases rule: associate_E) auto
  note p = map_inv_pre_insert [OF inv]
  have fresh: "v \<notin> keys_of m"
    using absent inv by (simp add: find_entry_None_iff)
  have b: "built_from m v val nm e"
    using stem_create_entry_built [OF c] by (simp add: built_from_pre_insert)
  then have key: "enum_value e = v" by (simp add: built_from_def)
  have "keys_of (pre_insert m) = keys_of m"
    using p(2) by (metis keys_of_def mset_eq_setD)
  with fresh key have fresh': "enum_value e \<notin> keys_of (pre_insert m)" by simp
  have ok: "entry_ok (value_size (pre_insert m)) (flags (pre_insert m)) e"
    using built_from_ok [OF b] p by simp
  show "map_inv m'"
    unfolding m' using p(1) p(3) fresh' ok rw p(5)
    by (intro map_inv_link_entry) simp_all
  have "length (buckets (pre_insert m)) = num_buckets (pre_insert m)" "0 < num_buckets (pre_insert m)"
    using p(1) by (simp_all add: map_inv_def STEM_DEFAULT_BUCKETS_def)
  from mset_link_entry [OF this, of e]
  have "mset (all_entries m') = add_mset e (mset (all_entries m))"
    using p(2) m' by simp
  with b show "\<exists>e. built_from m v val nm e \<and> mset (all_entries m') = add_mset e (mset (all_entries m))"
    by blast
  show "v \<notin> keys_of m" by (rule fresh)
  show "flags m AND STEM_FLAGS_READONLY = 0" by (rule rw)
  show "flags m' = flags m" "value_size m' = value_size m" "count m' = Suc (count m)"
    using p m' by simp_all
  show "num_buckets m' = (if load_exceeded m then num_buckets m * 2 else num_buckets m)"
    using m' by (simp add: pre_insert_def)
qed

lemma associate_failure:
  assumes inv: "map_inv m" and a: "stdem_associate_ex m v val nm al = (err, m', al')"
    and err: "err \<noteq> STEM_SUCCESS"
  shows "map_inv m'"
    and "mset (all_entries m') = mset (all_entries m)"
    and "flags m' = flags m" and "value_size m' = value_size m" and "count m' = count m"
    and "m' = m \<or> (load_exceeded m \<and> m' = grown m \<and> err = STEM_ERROR_OUT_OF_MEMORY)"
proof -
  note p = map_inv_pre_insert [OF inv]
  from a err have "m' = m \<or> (m' = pre_insert m \<and> err = STEM_ERROR_OUT_OF_MEMORY)"
    by (cases rule: associate_E) auto
  then show "m' = m \<or> (load_exceeded m \<and> m' = grown m \<and> err = STEM_ERROR_OUT_OF_MEMORY)"
    by (cases "load_exceeded m") (auto simp: pre_insert_def)
  from \<open>m' = m \<or> (m' = pre_insert m \<and> err = STEM_ERROR_OUT_OF_MEMORY)\<close>
  show "map_inv m'" "mset (all_entries m') = mset (all_entries m)"
    "flags m' = flags m" "value_size m' = value_size m" "count m' = count m"
    using inv p by auto
qed

lemma associate_inv:
  "map_inv m \<Longrightarrow> stdem_associate_ex m v val nm al = (err, m', al') \<Longrightarrow> map_inv m'"
  by (cases "err = STEM_SUCCESS") (auto dest: associate_success(1) associate_failure(1))

lemma associate_present:
  assumes "map_inv m" and "v \<in> keys_of m" and "flags m AND STEM_FLAGS_READONLY = 0"
  shows "stdem_associate_ex m v val nm al = (STEM_ERROR_ALREADY_EXISTS, m, al)"
  using assms by (simp add: stdem_associate_ex_def find_entry_None_iff)

subsection \<open>Construction\<close>

lemma floor_load_quotient: "nat \<lfloor>rat_of_nat n / STEM_LOAD_FACTOR\<rfloor> = 4 * n div 3"
proof -
  have "rat_of_nat n / STEM_LOAD_FACTOR = rat_of_nat (4 * n) / rat_of_nat 3"
    by (simp add: STEM_LOAD_FACTOR_def)
  then have "\<lfloor>rat_of_nat n / STEM_LOAD_FACTOR\<rfloor> = int (4 * n div 3)"
    by (simp only: floor_divide_of_nat_eq)
  then show ?thesis
    by simp
qed

lemma initial_width:
  "(if rat_of_nat n > rat_of_nat STEM_DEFAULT_BUCKETS * STEM_LOAD_FACTOR
    then nat \<lfloor>rat_of_nat n / STEM_LOAD_FACTOR\<rfloor> + 1 else STEM_DEFAULT_BUCKETS)
   = (if 12 < n then 4 * n div 3 + 1 else 16)"
proof -
  have "rat_of_nat n > rat_of_nat STEM_DEFAULT_BUCKETS * STEM_LOAD_FACTOR \<longleftrightarrow> rat_of_nat 12 < rat_of_nat n"
    by (simp add: STEM_DEFAULT_BUCKETS_def STEM_LOAD_FACTOR_def)
  also have "\<dots> \<longleftrightarrow> 12 < n"
    by (rule of_nat_less_iff)
  finally have c: "rat_of_nat n > rat_of_nat STEM_DEFAULT_BUCKETS * STEM_LOAD_FACTOR \<longleftrightarrow> 12 < n" .
  then show ?thesis
    by (simp add: floor_load_quotient STEM_DEFAULT_BUCKETS_def)
qed

lemma create_E:
  assumes "stdem_create_ex n vsize fl al = (Inr m, al')"
  shows "m = \<lparr>count = 0, value_size = vsize, flags = fl,
              buckets = replicate (if 12 < n then 4 * n div 3 + 1 else 16) [],
              num_buckets = (if 12 < n then 4 * n div 3 + 1 else 16)\<rparr>"
    and "0 < n" and "n \<le> STEM_MAX_ENTRIES"
  using assms unfolding stdem_create_ex_def Let_def initial_width
  by (auto split: if_splits prod.splits option.splits)

lemma create_inv:
  assumes "stdem_create_ex n vsize fl al = (Inr m, al')"
  shows "map_inv m" and "all_entries m = []" and "count m = 0" and "flags m = fl"
    and "value_size m = vsize"
proof -
  note m = create_E(1) [OF assms]
  have w: "16 \<le> (if 12 < n then 4 * n div 3 + 1 else 16)"
    by auto
  show "all_entries m = []" by (subst m) (simp add: all_entries_def)
  then show "map_inv m"
    using w by (subst m) (simp add: map_inv_def placed_replicate STEM_DEFAULT_BUCKETS_def all_entries_def)
  show "count m = 0" "flags m = fl" "value_size m = vsize"
    by (subst m, simp)+
qed

lemma clear_inv:
  assumes "map_inv m" and "stdem_clear m = (err, m')"
  shows "map_inv m'"
proof (cases "flags m AND STEM_FLAGS_READONLY \<noteq> 0")
  case True
  with assms show ?thesis by (simp add: stdem_clear_def)
next
  case False
  with assms have m': "m' = m\<lparr>buckets := map (\<lambda>_. []) (buckets m), count := 0\<rparr>"
    by (auto simp: stdem_clear_def map_inv_def)
  have "concat (map (\<lambda>_. []) (buckets m)) = ([] :: EnumEntry list)"
    by (induction "buckets m") auto
  then have "all_entries m' = []"
    using assms(1) by (simp add: m' all_entries_def map_inv_def)
  with assms show ?thesis
    by (simp add: m' map_inv_def placed_def)
qed

lemma built_from_cong:
  "flags m1 = flags m0 \<Longrightarrow> value_size m1 = value_size m0 \<Longrightarrow>
   built_from m1 v val nm e = built_from m0 v val nm e"
  by (simp add: built_from_def)

lemma copy_of_cong:
  "flags m1 = flags m0 \<Longrightarrow> value_size m1 = value_size m0 \<Longrightarrow> copy_of m1 = copy_of m0"
  by (intro ext) (simp add: copy_of_def built_from_def)

lemma copy_of_key: "copy_of m e e' \<Longrightarrow> enum_value e' = enum_value e"
  by (simp add: copy_of_def built_from_def)

lemma copy_entries_success:
  assumes "map_inv m0" and "copy_entries m0 es al = (STEM_SUCCESS, m', al')"
  shows "map_inv m' \<and> flags m' = flags m0 \<and> value_size m' = value_size m0 \<and>
         count m' = count m0 + length es \<and>
         (\<exists>es'. mset (all_entries m') = mset es' + mset (all_entries m0) \<and>
                list_all2 (copy_of m0) es es')"
  using assms
proof (induction es arbitrary: m0 al)
  case Nil
  then show ?case by simp
next
  case (Cons e es)
  obtain err m1 al1 where a: "stdem_associate_ex m0 (enum_value e) (value_ptr e) (name e) al = (err, m1, al1)"
    by (metis prod_cases3)
  with Cons.prems(2) have err: "err = STEM_SUCCESS" and rest: "copy_entries m1 es al1 = (STEM_SUCCESS, m', al')"
    by (auto split: if_splits)
  note s = associate_success [OF Cons.prems(1) a [unfolded err]]
  from s(2) obtain e' where e': "copy_of m0 e e'"
    and ms1: "mset (all_entries m1) = add_mset e' (mset (all_entries m0))"
    by (auto simp: copy_of_def)
  from Cons.IH [OF s(1) rest] obtain es' where
    i: "map_inv m'" "flags m' = flags m1" "value_size m' = value_size m1"
       "count m' = count m1 + length es"
       "mset (all_entries m') = mset es' + mset (all_entries m1)"
       "list_all2 (copy_of m1) es es'"
    by blast
  have "copy_of m1 = copy_of m0"
    using s by (intro copy_of_cong) simp_all
  with i(6) e' have "list_all2 (copy_of m0) (e # es) (e' # es')" by simp
  moreover have "mset (all_entries m') = mset (e' # es') + mset (all_entries m0)"
    using i(5) ms1 by simp
  ultimately show ?case
    using i s by (intro conjI exI [of _ "e' # es'"]) simp_all
qed

lemma list_all2_keys:
  "list_all2 (copy_of m) es es' \<Longrightarrow> map enum_value es' = map enum_value es"
  by (induction rule: list_all2_induct) (auto simp: copy_of_key)

lemma copy_entries_lookup:
  assumes inv: "map_inv m0" and c: "copy_entries m0 es al = (STEM_SUCCESS, m', al')"
  shows "e \<in> set es \<Longrightarrow> \<exists>e'. stem_find_entry m' (enum_value e) = Some e' \<and> copy_of m0 e e'"
    and "v \<notin> enum_value ` set es \<Longrightarrow> stem_find_entry m' v = stem_find_entry m0 v"
    and "distinct (map enum_value es)" and "enum_value ` set es \<inter> keys_of m0 = {}"
proof -
  from copy_entries_success [OF inv c] obtain es' where
    inv': "map_inv m'" and ms: "mset (all_entries m') = mset es' + mset (all_entries m0)"
    and rel: "list_all2 (copy_of m0) es es'"
    by blast
  have set': "set (all_entries m') = set es' \<union> set (all_entries m0)"
    using ms by (metis mset_eq_setD set_append mset_append)
  have keys: "map enum_value es' = map enum_value es"
    using rel by (rule list_all2_keys)
  have d: "distinct (map enum_value (es' @ all_entries m0))"
    using inv' ms distinct_keys_mset [of "all_entries m'" "es' @ all_entries m0"]
    by (simp add: map_inv_def)
  then show "distinct (map enum_value es)"
    using keys by simp
  from d have "enum_value ` set es' \<inter> enum_value ` set (all_entries m0) = {}"
    by auto
  moreover have "enum_value ` set es' = enum_value ` set es"
    using keys by (metis set_map)
  ultimately show "enum_value ` set es \<inter> keys_of m0 = {}"
    by (simp add: keys_of_def)
  {
    assume "e \<in> set es"
    then obtain i where "i < length es" "es ! i = e"
      by (auto simp: in_set_conv_nth)
    with rel have "es' ! i \<in> set es'" "copy_of m0 e (es' ! i)"
      by (auto simp: list_all2_conv_all_nth)
    then obtain e' where "e' \<in> set es'" "copy_of m0 e e'"
      by blast
    moreover from this have "enum_value e' = enum_value e" by (simp add: copy_of_key)
    ultimately show "\<exists>e'. stem_find_entry m' (enum_value e) = Some e' \<and> copy_of m0 e e'"
      using inv' set' by (auto simp: find_entry_Some_iff)
  }
  {
    assume v: "v \<notin> enum_value ` set es"
    show "stem_find_entry m' v = stem_find_entry m0 v"
    proof (cases "stem_find_entry m0 v")
      case None
      then have "v \<notin> keys_of m0" using inv by (simp add: find_entry_None_iff)
      with v \<open>enum_value ` set es' = enum_value ` set es\<close> have "v \<notin> keys_of m'"
        using set' by (auto simp: keys_of_def)
      with None inv' show ?thesis by (simp add: find_entry_None_iff)
    next
      case (Some e0)
      then have "e0 \<in> set (all_entries m0) \<and> enum_value e0 = v"
        using inv by (simp add: find_entry_Some_iff)
      with set' inv' have "stem_find_entry m' v = Some e0"
        by (simp add: find_entry_Some_iff)
      with Some show ?thesis by simp
    qed
  }
qed

lemma copy_entries_inv:
  "map_inv m0 \<Longrightarrow> copy_entries m0 es al = (err, m', al') \<Longrightarrow> map_inv m'"
proof (induction es arbitrary: m0 al)
  case Nil
  then show ?case by simp
next
  case (Cons e es)
  obtain err1 m1 al1 where a: "stdem_associate_ex m0 (enum_value e) (value_ptr e) (name e) al = (err1, m1, al1)"
    by (metis prod_cases3)
  have "map_inv m1" using associate_inv [OF Cons.prems(1) a] .
  with Cons show ?case using a
    by (cases "err1 = STEM_SUCCESS") auto
qed

subsection \<open>Overwriting an entry in place\<close>

lemma mset_update_first:
  "find (\<lambda>entry. enum_value entry = v) chain = Some existing \<Longrightarrow>
   add_mset existing (mset (update_first v e' chain)) = add_mset e' (mset chain)"
  by (induction chain) (auto split: if_splits)

lemma mset_concat_update:
  "i < length bs \<Longrightarrow> mset (concat (bs[i := c])) + mset (bs ! i) = mset (concat bs) + mset c"
proof (induction bs arbitrary: i)
  case Nil
  then show ?case by simp
next
  case (Cons b bs)
  then show ?case by (cases i) (auto simp: add.assoc [symmetric])
qed

lemma set_update_first:
  "set (update_first v e' chain) \<subseteq> insert e' (set chain)"
  by (induction chain) auto

lemma store_entry_fields [simp]:
  "count (store_entry m e) = count m" "value_size (store_entry m e) = value_size m"
  "flags (store_entry m e) = flags m" "num_buckets (store_entry m e) = num_buckets m"
  "length (buckets (store_entry m e)) = length (buckets m)"
  by (simp_all add: store_entry_def Let_def)

lemma mset_store_entry:
  assumes inv: "map_inv m" and f: "stem_find_entry m (enum_value e') = Some existing"
  shows "add_mset existing (mset (all_entries (store_entry m e'))) = add_mset e' (mset (all_entries m))"
proof -
  define i where "i = bucket_idx (num_buckets m) (enum_value e')"
  have len: "length (buckets m) = num_buckets m" and n: "0 < num_buckets m"
    using inv by (simp_all add: map_inv_def STEM_DEFAULT_BUCKETS_def)
  have i: "i < length (buckets m)"
    using len n by (simp add: i_def bucket_idx_less)
  have ae: "all_entries m = concat (buckets m)"
    using len by (rule all_entries_concat)
  have ae': "all_entries (store_entry m e') = concat (buckets (store_entry m e'))"
    using len by (intro all_entries_concat) simp
  have b': "buckets (store_entry m e') = (buckets m)[i := update_first (enum_value e') e' (buckets m ! i)]"
    by (simp add: store_entry_def Let_def i_def)
  have chain: "add_mset existing (mset (update_first (enum_value e') e' (buckets m ! i)))
               = add_mset e' (mset (buckets m ! i))"
    using f by (intro mset_update_first) (simp add: stem_find_entry_def i_def)
  have "mset (concat (buckets (store_entry m e'))) + mset (buckets m ! i)
        = mset (concat (buckets m)) + mset (update_first (enum_value e') e' (buckets m ! i))"
    unfolding b' using i by (rule mset_concat_update)
  then have "add_mset existing (mset (concat (buckets (store_entry m e'))) + mset (buckets m ! i))
        = mset (concat (buckets m)) + add_mset existing (mset (update_first (enum_value e') e' (buckets m ! i)))"
    by simp
  also have "\<dots> = add_mset e' (mset (concat (buckets m))) + mset (buckets m ! i)"
    by (simp only: chain) simp
  finally show ?thesis
    by (simp add: ae ae')
qed

lemma placed_store_entry:
  assumes inv: "map_inv m"
  shows "placed (num_buckets m) (buckets (store_entry m e'))"
  unfolding placed_def
proof (intro allI impI ballI)
  fix j e
  assume j: "j < num_buckets m" and mem: "e \<in> set (buckets (store_entry m e') ! j)"
  define i where "i = bucket_idx (num_buckets m) (enum_value e')"
  have len: "length (buckets m) = num_buckets m" and n: "0 < num_buckets m"
    and pl: "placed (num_buckets m) (buckets m)"
    using inv by (simp_all add: map_inv_def STEM_DEFAULT_BUCKETS_def)
  have b': "buckets (store_entry m e') = (buckets m)[i := update_first (enum_value e') e' (buckets m ! i)]"
    by (simp add: store_entry_def Let_def i_def)
  show "bucket_idx (num_buckets m) (enum_value e) = j"
  proof (cases "j = i")
    case True
    with mem j len have "e \<in> set (update_first (enum_value e') e' (buckets m ! i))"
      by (simp add: b')
    then have "e = e' \<or> e \<in> set (buckets m ! i)"
      using set_update_first by fastforce
    with pl j True show ?thesis by (auto simp: placed_def i_def)
  next
    case False
    with mem have "e \<in> set (buckets m ! j)" by (simp add: b')
    with pl j show ?thesis by (auto simp: placed_def)
  qed
qed

lemma map_inv_store_entry:
  assumes inv: "map_inv m" and f: "stem_find_entry m (enum_value e') = Some existing"
    and ok: "entry_ok (value_size m) (flags m) e'"
  shows "map_inv (store_entry m e')"
    and "set (all_entries (store_entry m e')) = insert e' (set (all_entries m) - {existing})"
proof -
  note ms = mset_store_entry [OF inv f]
  from f inv have ex: "existing \<in> set (all_entries m)" "enum_value existing = enum_value e'"
    by (simp_all add: find_entry_Some_iff)
  then obtain rest where rest: "mset (all_entries m) = add_mset existing rest"
    by (metis insert_DiffM set_mset_mset)
  with ms have ms': "mset (all_entries (store_entry m e')) = add_mset e' rest"
    by simp
  have d: "distinct (map enum_value (all_entries m))"
    using inv by (simp add: map_inv_def)
  have "mset (map enum_value (all_entries m)) = add_mset (enum_value existing) (image_mset enum_value rest)"
    using rest by (metis image_mset_add_mset mset_map)
  moreover have "mset (map enum_value (all_entries (store_entry m e'))) = add_mset (enum_value e') (image_mset enum_value rest)"
    using ms' by (metis image_mset_add_mset mset_map)
  ultimately have "mset (map enum_value (all_entries (store_entry m e'))) = mset (map enum_value (all_entries m))"
    using ex by simp
  then have d': "distinct (map enum_value (all_entries (store_entry m e')))"
    using d by (metis mset_eq_imp_distinct_iff)
  have l: "length (all_entries (store_entry m e')) = length (all_entries m)"
    using ms' rest by (metis size_add_mset size_mset)
  have "distinct (all_entries m)"
    using d by (simp add: distinct_map)
  then have "Multiset.count (mset (all_entries m)) existing = 1"
    using ex(1) by (simp add: distinct_count_atmost_1)
  then have "Multiset.count rest existing = 0"
    by (simp add: rest)
  then have "existing \<notin># rest"
    by (simp add: not_in_iff)
  then have s: "set (all_entries (store_entry m e')) = insert e' (set (all_entries m) - {existing})"
    using ms' rest by (metis Diff_insert_absorb set_mset_add_mset_insert set_mset_mset)
  show "set (all_entries (store_entry m e')) = insert e' (set (all_entries m) - {existing})"
    by (rule s)
  have "list_all (entry_ok (value_size m) (flags m)) (all_entries (store_entry m e'))"
    using inv ok s by (auto simp: map_inv_def list_all_iff)
  then show "map_inv (store_entry m e')"
    using inv d' l placed_store_entry [OF inv, of e'] unfolding map_inv_def by auto
qed

lemma length_memcpy: "p \<noteq> NullPtr \<Longrightarrow> length (memcpy n p) = n"
  by (cases p) auto

lemma strdup_no_nul: "CHR 0x00 \<notin> set (strdup s)"
  unfolding strdup_def using set_takeWhileD by fastforce

lemma overwrite_entry_success:
  assumes o: "overwrite_entry m existing entry al = Some (err, existing', al')"
    and ok: "entry_ok (value_size m) (flags m) existing"
    and key: "enum_value existing = enum_value entry"
  shows "enum_value existing' = enum_value entry"
    and "entry_ok (value_size m) (flags m) existing'"
    and "err = STEM_SUCCESS \<Longrightarrow> copy_of m entry existing'"
proof -
  define p where "p = value_ptr existing'"
  have val: "(if value_size m > 0
              then \<exists>a dst b src. value_ptr existing = Ptr a dst \<and> value_ptr entry = Ptr b src \<and>
                     p = Ptr a (memcpy (value_size m) (Ptr b src) @ drop (value_size m) dst)
              else p = value_ptr entry)"
    and nm: "name existing' = None \<or>
             (flags m AND STEM_FLAGS_NO_NAMES = 0 \<and> name existing' = map_option strdup (name entry))"
    and nm_ok: "err = STEM_SUCCESS \<Longrightarrow>
             name existing' = (if flags m AND STEM_FLAGS_NO_NAMES = 0 then map_option strdup (name entry) else None)"
    and k: "enum_value existing' = enum_value existing"
    using o unfolding overwrite_entry_def p_def
    by (auto split: if_splits option.splits pointer.splits prod.splits)
  show "enum_value existing' = enum_value entry"
    using k key by simp
  have vok: "case p of NullPtr \<Rightarrow> True | Ptr a bs \<Rightarrow> value_size m = 0 \<or> length bs = value_size m"
  proof (cases "value_size m > 0")
    case True
    with val obtain a dst b src where v: "value_ptr existing = Ptr a dst"
      "p = Ptr a (memcpy (value_size m) (Ptr b src) @ drop (value_size m) dst)"
      by auto
    with ok True have "length dst = value_size m"
      by (simp add: entry_ok_def)
    with v show ?thesis by (simp del: memcpy.simps add: length_memcpy)
  next
    case False
    then show ?thesis by (cases p) auto
  qed
  moreover have "case name existing' of None \<Rightarrow> True
                 | Some s \<Rightarrow> CHR 0x00 \<notin> set s \<and> flags m AND STEM_FLAGS_NO_NAMES = 0"
    using nm strdup_no_nul by (cases "name entry") (auto split: option.splits)
  ultimately show "entry_ok (value_size m) (flags m) existing'"
    by (simp add: entry_ok_def p_def)
  assume "err = STEM_SUCCESS"
  note n = nm_ok [OF this]
  have "if value_size m > 0 \<and> value_ptr entry \<noteq> NullPtr
        then \<exists>a. p = Ptr a (memcpy (value_size m) (value_ptr entry))
        else p = value_ptr entry"
  proof (cases "value_size m > 0")
    case True
    with val obtain a dst b src where v: "value_ptr existing = Ptr a dst" "value_ptr entry = Ptr b src"
      "p = Ptr a (memcpy (value_size m) (Ptr b src) @ drop (value_size m) dst)"
      by auto
    with ok True have "length dst = value_size m"
      by (simp add: entry_ok_def)
    with v True show ?thesis by (simp del: memcpy.simps)
  next
    case False
    with val show ?thesis by simp
  qed
  with n show "copy_of m entry existing'"
    using k key unfolding p_def copy_of_def built_from_def by simp
qed

lemma keys_of_find: "map_inv m \<Longrightarrow> v \<in> keys_of m \<longleftrightarrow> stem_find_entry m v \<noteq> None"
  by (simp add: find_entry_None_iff)

lemma find_entry_replaced:
  assumes "map_inv m" and "map_inv m'"
    and "set (all_entries m') = insert e' (set (all_entries m) - {existing})"
    and "enum_value e' = enum_value existing" and "existing \<in> set (all_entries m)"
  shows "stem_find_entry m' v = (if v = enum_value e' then Some e' else stem_find_entry m v)"
proof (cases "v = enum_value e'")
  case True
  with assms show ?thesis by (simp add: find_entry_Some_iff)
next
  case False
  show ?thesis
  proof (cases "stem_find_entry m v")
    case None
    then have "v \<notin> keys_of m"
      using assms(1) by (simp add: find_entry_None_iff)
    then have "v \<notin> keys_of m'"
      using assms(3) False by (auto simp: keys_of_def)
    then have "stem_find_entry m' v = None"
      using assms(2) by (simp add: find_entry_None_iff)
    with None False show ?thesis by simp
  next
    case (Some e0)
    then have e0: "e0 \<in> set (all_entries m)" "enum_value e0 = v"
      using assms(1) by (simp_all add: find_entry_Some_iff)
    with False assms(4) have "e0 \<noteq> existing" by auto
    with e0 have "stem_find_entry m' v = Some e0"
      using assms(2,3) by (simp add: find_entry_Some_iff)
    with Some False show ?thesis by simp
  qed
qed

lemma merge_step:
  assumes inv: "map_inv m0"
    and m: "merge_entries ow m0 (e # es) al = Some (STEM_SUCCESS, m', al')"
  obtains m1 al1 where "merge_entries ow m1 es al1 = Some (STEM_SUCCESS, m', al')"
    and "map_inv m1" and "flags m1 = flags m0" and "value_size m1 = value_size m0"
    and "\<And>v. v \<noteq> enum_value e \<Longrightarrow> stem_find_entry m1 v = stem_find_entry m0 v"
    and "ow \<or> enum_value e \<notin> keys_of m0 \<Longrightarrow>
           \<exists>e'. stem_find_entry m1 (enum_value e) = Some e' \<and> copy_of m0 e e'"
    and "\<not> ow \<Longrightarrow> enum_value e \<in> keys_of m0 \<Longrightarrow> m1 = m0"
    and "stem_find_entry m1 (enum_value e) \<noteq> None"
proof (cases "stem_find_entry m0 (enum_value e)")
  case None
  obtain err m1 al1 where a: "stdem_associate_ex m0 (enum_value e) (value_ptr e) (name e) al = (err, m1, al1)"
    by (metis prod_cases3)
  with m None have err: "err = STEM_SUCCESS" and rest: "merge_entries ow m1 es al1 = Some (STEM_SUCCESS, m', al')"
    by (auto split: if_splits)
  note s = associate_success [OF inv a [unfolded err]]
  from s(2) obtain e' where e': "copy_of m0 e e'"
    and ms1: "mset (all_entries m1) = add_mset e' (mset (all_entries m0))"
    by (auto simp: copy_of_def)
  then have set1: "set (all_entries m1) = insert e' (set (all_entries m0))"
    by (metis mset_eq_setD set_mset_add_mset_insert set_mset_mset)
  have key: "enum_value e' = enum_value e"
    using e' by (rule copy_of_key)
  note f = find_entry_added [OF inv s(1) set1]
  show ?thesis
  proof (rule that [OF rest s(1) s(5) s(6)])
    show "stem_find_entry m1 v = stem_find_entry m0 v" if "v \<noteq> enum_value e" for v
      using that f key by simp
    show "\<exists>e'. stem_find_entry m1 (enum_value e) = Some e' \<and> copy_of m0 e e'"
      using f key e' by auto
    show "m1 = m0" if "enum_value e \<in> keys_of m0"
      using that None inv by (simp add: find_entry_None_iff)
    show "stem_find_entry m1 (enum_value e) \<noteq> None"
      using f key by simp
  qed
next
  case (Some existing)
  show ?thesis
  proof (cases ow)
    case False
    with m Some have rest: "merge_entries ow m0 es al = Some (STEM_SUCCESS, m', al')"
      by simp
    show ?thesis
    proof (rule that [OF rest inv])
      show "\<not> ow \<Longrightarrow> enum_value e \<in> keys_of m0 \<Longrightarrow> m0 = m0" by simp
      show "ow \<or> enum_value e \<notin> keys_of m0 \<Longrightarrow>
           \<exists>e'. stem_find_entry m0 (enum_value e) = Some e' \<and> copy_of m0 e e'"
        using False Some inv by (simp add: keys_of_find)
      show "stem_find_entry m0 (enum_value e) \<noteq> None"
        using Some by simp
    qed simp_all
  next
    case True
    from m Some True obtain err existing' al1
      where o: "overwrite_entry m0 existing e al = Some (err, existing', al1)"
      by (auto split: option.splits)
    with m Some True have err: "err = STEM_SUCCESS"
      and rest: "merge_entries ow (store_entry m0 existing') es al1 = Some (STEM_SUCCESS, m', al')"
      by (auto split: if_splits)
    from Some inv have ex: "existing \<in> set (all_entries m0)" "enum_value existing = enum_value e"
      by (simp_all add: find_entry_Some_iff)
    have ok: "entry_ok (value_size m0) (flags m0) existing"
      using inv ex(1) by (simp add: map_inv_def list_all_iff)
    note w = overwrite_entry_success [OF o ok ex(2)]
    have f0: "stem_find_entry m0 (enum_value existing') = Some existing"
      using Some w(1) by simp
    note st = map_inv_store_entry [OF inv f0 w(2)]
    have f: "stem_find_entry (store_entry m0 existing') v =
             (if v = enum_value existing' then Some existing' else stem_find_entry m0 v)" for v
      using inv st ex w(1) by (intro find_entry_replaced) simp_all
    show ?thesis
    proof (rule that [OF rest st(1)])
      show "stem_find_entry (store_entry m0 existing') v = stem_find_entry m0 v"
        if "v \<noteq> enum_value e" for v
        using that f w(1) by simp
      show "\<exists>e'. stem_find_entry (store_entry m0 existing') (enum_value e) = Some e' \<and> copy_of m0 e e'"
        using f w(1) w(3) [OF err] by auto
      show "\<not> ow \<Longrightarrow> enum_value e \<in> keys_of m0 \<Longrightarrow> store_entry m0 existing' = m0"
        using True by simp
      show "stem_find_entry (store_entry m0 existing') (enum_value e) \<noteq> None"
        using f w(1) by simp
    qed simp_all
  qed
qed

lemma merge_entries_success:
  assumes "map_inv m0" and "merge_entries ow m0 es al = Some (STEM_SUCCESS, m', al')"
    and "distinct (map enum_value es)"
  shows "map_inv m' \<and> flags m' = flags m0 \<and> value_size m' = value_size m0 \<and>
    (\<forall>v. v \<notin> enum_value ` set es \<longrightarrow> stem_find_entry m' v = stem_find_entry m0 v) \<and>
    (\<not> ow \<longrightarrow> (\<forall>v \<in> keys_of m0. stem_find_entry m' v = stem_find_entry m0 v)) \<and>
    (\<forall>e \<in> set es. ow \<or> enum_value e \<notin> keys_of m0 \<longrightarrow>
        (\<exists>e'. stem_find_entry m' (enum_value e) = Some e' \<and> copy_of m0 e e'))"
  using assms
proof (induction es arbitrary: m0 al)
  case Nil
  then show ?case by simp
next
  case (Cons e es)
  from Cons.prems(1,2) obtain m1 al1 where
    rest: "merge_entries ow m1 es al1 = Some (STEM_SUCCESS, m', al')"
    and inv1: "map_inv m1" and fl: "flags m1 = flags m0" and vs: "value_size m1 = value_size m0"
    and other: "\<And>v. v \<noteq> enum_value e \<Longrightarrow> stem_find_entry m1 v = stem_find_entry m0 v"
    and this_key: "ow \<or> enum_value e \<notin> keys_of m0 \<Longrightarrow>
           \<exists>e'. stem_find_entry m1 (enum_value e) = Some e' \<and> copy_of m0 e e'"
    and same: "\<not> ow \<Longrightarrow> enum_value e \<in> keys_of m0 \<Longrightarrow> m1 = m0"
    and present: "stem_find_entry m1 (enum_value e) \<noteq> None"
    by (rule merge_step) blast
  from Cons.prems(3) have d: "distinct (map enum_value es)" and fresh: "enum_value e \<notin> enum_value ` set es"
    by auto
  note IH = Cons.IH [OF inv1 rest d]
  have cp: "copy_of m1 = copy_of m0"
    using fl vs by (rule copy_of_cong)
  have keys1: "v \<in> keys_of m0 \<Longrightarrow> v \<in> keys_of m1" for v
    using other [of v] present Cons.prems(1) inv1 by (cases "v = enum_value e") (simp_all add: keys_of_find)
  have keys1': "v \<in> keys_of m1 \<Longrightarrow> v \<noteq> enum_value e \<Longrightarrow> v \<in> keys_of m0" for v
    using other [of v] Cons.prems(1) inv1 by (simp add: keys_of_find)
  have A: "\<forall>v. v \<notin> enum_value ` set (e # es) \<longrightarrow> stem_find_entry m' v = stem_find_entry m0 v"
    using IH other by auto
  have B: "\<not> ow \<longrightarrow> (\<forall>v \<in> keys_of m0. stem_find_entry m' v = stem_find_entry m0 v)"
  proof (intro impI ballI)
    fix v assume now: "\<not> ow" and v: "v \<in> keys_of m0"
    from IH now keys1 [OF v] have "stem_find_entry m' v = stem_find_entry m1 v" by blast
    moreover have "stem_find_entry m1 v = stem_find_entry m0 v"
      using other [of v] same [OF now] v by (cases "v = enum_value e") auto
    ultimately show "stem_find_entry m' v = stem_find_entry m0 v" by simp
  qed
  have C: "\<forall>x \<in> set (e # es). ow \<or> enum_value x \<notin> keys_of m0 \<longrightarrow>
        (\<exists>e'. stem_find_entry m' (enum_value x) = Some e' \<and> copy_of m0 x e')"
  proof (intro ballI impI)
    fix x assume x: "x \<in> set (e # es)" and c: "ow \<or> enum_value x \<notin> keys_of m0"
    show "\<exists>e'. stem_find_entry m' (enum_value x) = Some e' \<and> copy_of m0 x e'"
    proof (cases "x = e")
      case True
      from IH fresh have "stem_find_entry m' (enum_value e) = stem_find_entry m1 (enum_value e)"
        by blast
      with this_key c True show ?thesis by auto
    next
      case False
      with x have xs: "x \<in> set es" by simp
      with fresh have ne: "enum_value x \<noteq> enum_value e" by (metis imageI)
      from c have "ow \<or> enum_value x \<notin> keys_of m1"
        using keys1' [OF _ ne] by blast
      with IH xs cp show ?thesis by auto
    qed
  qed
  from IH fl vs A B C show ?case by simp
qed

lemma copy_E:
  assumes "stdem_copy m al = (Inr m', al')"
  obtains new_map al1 where "stdem_create_ex (count m) (value_size m) (flags m) al = (Inr new_map, al1)"
    and "copy_entries new_map (all_entries m) al1 = (STEM_SUCCESS, m', al')"
  using assms unfolding stdem_copy_def
  by (auto split: prod.splits sum.splits if_splits)

lemma merge_E:
  assumes "stdem_merge m1 m2 ow al = Some (Inr m', al')"
  obtains new_map al1 new_map1 al2 where "value_size m1 = value_size m2"
    and "stdem_create_ex (count m1 + count m2) (value_size m1) (flags m1 OR flags m2) al = (Inr new_map, al1)"
    and "copy_entries new_map (all_entries m1) al1 = (STEM_SUCCESS, new_map1, al2)"
    and "merge_entries ow new_map1 (all_entries m2) al2 = Some (STEM_SUCCESS, m', al')"
  using assms unfolding stdem_merge_def
  by (auto split: prod.splits sum.splits if_splits option.splits)

lemma read_entries_Suc_E:
  assumes "read_entries (Suc i) m s al = (Inr m', al')"
  obtains key_bytes s1 len_bytes s2 nm s3 al1 val s4 al2 m1 al3 where
    "fread 4 s = Some (key_bytes, s1)" and "fread 2 s1 = Some (len_bytes, s2)"
    and "if le_nat len_bytes > 0
         then \<exists>a name_bytes. malloc al = (Some a, al1) \<and> fread (le_nat len_bytes) s2 = Some (name_bytes, s3) \<and>
                nm = Some (map char_of_byte name_bytes)
         else nm = None \<and> s3 = s2 \<and> al1 = al"
    and "if value_size m > 0
         then \<exists>a value_bytes. malloc al1 = (Some a, al2) \<and> fread (value_size m) s3 = Some (value_bytes, s4) \<and>
                val = Ptr a value_bytes
         else \<exists>ptr_bytes. fread 8 s3 = Some (ptr_bytes, s4) \<and> al2 = al1 \<and>
                val = (if le_nat ptr_bytes = 0 then NullPtr else Ptr (le_nat ptr_bytes) [])"
    and "stdem_associate_ex m (word_of_nat (le_nat key_bytes)) val nm al2 = (STEM_SUCCESS, m1, al3)"
    and "read_entries i m1 s4 al3 = (Inr m', al')"
proof -
  from assms obtain key_bytes s1 where k: "fread 4 s = Some (key_bytes, s1)"
    by (auto split: option.splits)
  from assms k obtain len_bytes s2 where l: "fread 2 s1 = Some (len_bytes, s2)"
    by (auto split: option.splits)
  define name_step where "name_step =
    (if le_nat len_bytes > 0
     then (case malloc al of
             (None, al1) \<Rightarrow> (Inl STEM_ERROR_OUT_OF_MEMORY, al1)
           | (Some _, al1) \<Rightarrow>
              (case fread (le_nat len_bytes) s2 of
                 None \<Rightarrow> (Inl STEM_ERROR_INVALID_ARG, al1)
               | Some (name_bytes, s3) \<Rightarrow> (Inr (Some (map char_of_byte name_bytes), s3), al1)))
     else (Inr (None, s2), al))"
  from assms k l obtain nm s3 al1 where n: "name_step = (Inr (nm, s3), al1)"
    unfolding name_step_def by (simp add: Let_def split: prod.splits sum.splits)
  define value_step where "value_step =
    (if value_size m > 0
     then (case malloc al1 of
             (None, al2) \<Rightarrow> (Inl STEM_ERROR_OUT_OF_MEMORY, al2)
           | (Some a, al2) \<Rightarrow>
              (case fread (value_size m) s3 of
                 None \<Rightarrow> (Inl STEM_ERROR_INVALID_ARG, al2)
               | Some (value_bytes, s4) \<Rightarrow> (Inr (Ptr a value_bytes, s4), al2)))
     else (case fread 8 s3 of
             None \<Rightarrow> (Inl STEM_ERROR_INVALID_ARG, al1)
           | Some (ptr_bytes, s4) \<Rightarrow>
               (Inr (if le_nat ptr_bytes = 0 then NullPtr else Ptr (le_nat ptr_bytes) [], s4), al1)))"
  from assms k l n obtain val s4 al2 where v: "value_step = (Inr (val, s4), al2)"
    unfolding value_step_def name_step_def by (simp add: Let_def split: prod.splits sum.splits)
  obtain err m1 al3 where a: "stdem_associate_ex m (word_of_nat (le_nat key_bytes)) val nm al2 = (err, m1, al3)"
    by (metis prod_cases3)
  from assms k l n v a have e: "err = STEM_SUCCESS" and r: "read_entries i m1 s4 al3 = (Inr m', al')"
    unfolding value_step_def name_step_def by (simp_all add: Let_def split: if_splits)
  have N: "if le_nat len_bytes > 0
         then \<exists>a name_bytes. malloc al = (Some a, al1) \<and> fread (le_nat len_bytes) s2 = Some (name_bytes, s3) \<and>
                nm = Some (map char_of_byte name_bytes)
         else nm = None \<and> s3 = s2 \<and> al1 = al"
    using n unfolding name_step_def by (auto split: if_splits prod.splits option.splits)
  have V: "if value_size m > 0
         then \<exists>a value_bytes. malloc al1 = (Some a, al2) \<and> fread (value_size m) s3 = Some (value_bytes, s4) \<and>
                val = Ptr a value_bytes
         else \<exists>ptr_bytes. fread 8 s3 = Some (ptr_bytes, s4) \<and> al2 = al1 \<and>
                val = (if le_nat ptr_bytes = 0 then NullPtr else Ptr (le_nat ptr_bytes) [])"
    using v unfolding value_step_def by (auto split: if_splits prod.splits option.splits)
  show ?thesis
    using that [OF k l N V a [unfolded e] r] .
qed

lemma read_entries_inv:
  "map_inv m \<Longrightarrow> read_entries i m s al = (Inr m', al') \<Longrightarrow> map_inv m'"
proof (induction i arbitrary: m s al)
  case 0
  then show ?case by simp
next
  case (Suc i)
  from Suc.prems(2) obtain v val nm al2 m1 al3 s4 where
    "stdem_associate_ex m v val nm al2 = (STEM_SUCCESS, m1, al3)"
    and r: "read_entries i m1 s4 al3 = (Inr m', al')"
    by (rule read_entries_Suc_E) blast
  then have "map_inv m1"
    using Suc.prems(1) associate_inv by blast
  then show ?case using r by (rule Suc.IH)
qed

lemma deserialize_E:
  assumes "stdem_deserialize stream al = (Inr m', al')"
  obtains magic s1 version s2 count_bytes s3 size_bytes s4 flag_bytes s5 m al1 where
    "fread 4 stream = Some (magic, s1)" "le_nat magic = STEM_MAGIC"
    "fread 2 s1 = Some (version, s2)" "le_nat version = STEM_VERSION"
    "fread 8 s2 = Some (count_bytes, s3)" "fread 8 s3 = Some (size_bytes, s4)"
    "fread 4 s4 = Some (flag_bytes, s5)"
    "stdem_create_ex (le_nat count_bytes) (le_nat size_bytes) (word_of_nat (le_nat flag_bytes)) al = (Inr m, al1)"
    "read_entries (le_nat count_bytes) m s5 al1 = (Inr m', al')"
  using assms unfolding stdem_deserialize_def
  by (auto split: option.splits if_splits prod.splits sum.splits)

theorem reachable_inv: "reachable m \<Longrightarrow> map_inv m"
proof (induction rule: reachable.induct)
  case (created n vsize fl al m al')
  then show ?case by (rule create_inv(1))
next
  case (associated m v val nm al err m' al')
  then show ?case using associate_inv by blast
next
  case (cleared m err m')
  then show ?case using clear_inv by blast
next
  case (copied m al m' al')
  from copied(2) obtain new_map al1 where
    "stdem_create_ex (count m) (value_size m) (flags m) al = (Inr new_map, al1)"
    "copy_entries new_map (all_entries m) al1 = (STEM_SUCCESS, m', al')"
    by (rule copy_E)
  then show ?case using create_inv(1) copy_entries_inv by blast
next
  case (merged m1 m2 overwrite al m' al')
  from merged(3) obtain new_map al1 new_map1 al2 where
    c: "stdem_create_ex (count m1 + count m2) (value_size m1) (flags m1 OR flags m2) al = (Inr new_map, al1)"
    and p1: "copy_entries new_map (all_entries m1) al1 = (STEM_SUCCESS, new_map1, al2)"
    and p2: "merge_entries overwrite new_map1 (all_entries m2) al2 = Some (STEM_SUCCESS, m', al')"
    by (rule merge_E)
  have "map_inv new_map1"
    using create_inv(1) [OF c] p1 copy_entries_inv by blast
  moreover have "distinct (map enum_value (all_entries m2))"
    using merged.IH(2) by (simp add: map_inv_def)
  ultimately show ?case
    using merge_entries_success [OF _ p2] by blast
next
  case (deserialized stream al m al')
  then obtain n vsize fl al0 m0 s al1 where
    "stdem_create_ex n vsize fl al0 = (Inr m0, al1)" "read_entries n m0 s al1 = (Inr m, al')"
    by (rule deserialize_E) blast
  then show ?case using create_inv(1) read_entries_inv by blast
qed

section \<open>Claims about construction and the flags\<close>

lemma fresh_map_eq:
  "0 < n \<Longrightarrow> n \<le> STEM_MAX_ENTRIES \<Longrightarrow>
   stdem_create_ex n vsize fl alloc_ok =
     (Inr (fresh_map n vsize fl), \<lparr>next_block = 2, plan = []\<rparr>)"
  by (simp add: fresh_map_def stdem_create_ex_def alloc_ok_def malloc_def Let_def)

lemma fresh_map_small:
  "0 < n \<Longrightarrow> n \<le> 12 \<Longrightarrow>
   fresh_map n vsize fl =
     \<lparr>count = 0, value_size = vsize, flags = fl,
      buckets = [[], [], [], [], [], [], [], [], [], [], [], [], [], [], [], []],
      num_buckets = 16\<rparr>"
proof -
  assume n: "0 < n" "n \<le> 12"
  have r: "replicate 16 [] = [[], [], [], [], [], [], [], [], [], [], [], [], [], [], [], ([] :: EnumEntry list)]"
    by (simp add: numeral_eq_Suc)
  have "n \<le> STEM_MAX_ENTRIES" using n by (simp add: STEM_MAX_ENTRIES_def)
  from create_E(1) [OF fresh_map_eq [OF n(1) this]] show ?thesis
    using n by (simp add: r)
qed

lemma reachable_fresh_map: "0 < n \<Longrightarrow> n \<le> STEM_MAX_ENTRIES \<Longrightarrow> reachable (fresh_map n vsize fl)"
  using fresh_map_eq reachable.created by blast






text \<open>
  Claim C10. \<open>stdem_copy\<close> of a map with \<open>count = 0\<close> returns no map and reports
  \<open>STEM_ERROR_INVALID_ARG\<close>, and so does \<open>stdem_merge\<close> of two such maps: both pass a
  count of 0 to \<open>stdem_create_ex\<close>, which rejects it before allocating anything.
\<close>

theorem copy_merge_empty:
  "(count m = 0 \<longrightarrow> stdem_copy m al = (Inl STEM_ERROR_INVALID_ARG, al)) \<and>
   (count m1 = 0 \<and> count m2 = 0 \<longrightarrow>
      stdem_merge m1 m2 overwrite al = Some (Inl STEM_ERROR_INVALID_ARG, al))"
  by (simp add: stdem_copy_def stdem_merge_def stdem_create_ex_def)

text \<open>Witness for C10: freshly created maps are empty; copying one and merging two of
  them fails.\<close>

theorem copy_merge_empty_witness:
  "count (fresh_map 5 4 STEM_FLAGS_NONE) = 0 \<and>
   stdem_copy (fresh_map 5 4 STEM_FLAGS_NONE) alloc_ok = (Inl STEM_ERROR_INVALID_ARG, alloc_ok) \<and>
   stdem_merge (fresh_map 5 4 STEM_FLAGS_NONE) (fresh_map 3 4 STEM_FLAGS_NONE) True alloc_ok =
     Some (Inl STEM_ERROR_INVALID_ARG, alloc_ok)"
proof -
  have c: "count (fresh_map n 4 STEM_FLAGS_NONE) = 0" for n
    by (simp add: fresh_map_def stdem_create_ex_def alloc_ok_def malloc_def Let_def
        split: sum.splits prod.splits option.splits)
  from copy_merge_empty [of "fresh_map 5 4 STEM_FLAGS_NONE" alloc_ok "fresh_map 5 4 STEM_FLAGS_NONE"
      "fresh_map 3 4 STEM_FLAGS_NONE" True]
  show ?thesis using c by simp
qed

section \<open>Claims about association\<close>

lemmas assoc_eval = alloc_ok_def malloc_def Let_def
  STEM_LOAD_FACTOR_def
  STEM_FLAGS_NONE_def STEM_FLAGS_NO_NAMES_def STEM_FLAGS_READONLY_def STEM_FLAGS_COPY_VALUES_def
  stdem_associate_ex_def stem_find_entry_def bucket_idx_def stem_hash_int_def
  stem_create_entry_def stem_resize_map_def strdup_def

lemma associate_result:
  "stdem_associate_ex m v val nm al =
     (fst (stdem_associate_ex m v val nm al), fst (snd (stdem_associate_ex m v val nm al)),
      snd (snd (stdem_associate_ex m v val nm al)))"
  by simp

lemma copy_entries_reachable:
  "reachable m0 \<Longrightarrow> copy_entries m0 es al = (err, m', al') \<Longrightarrow> reachable m'"
proof (induction es arbitrary: m0 al)
  case Nil
  then show ?case by simp
next
  case (Cons e es)
  obtain err1 m1 al1 where a: "stdem_associate_ex m0 (enum_value e) (value_ptr e) (name e) al = (err1, m1, al1)"
    by (metis prod_cases3)
  have "reachable m1" using reachable.associated [OF Cons.prems(1) a] .
  with Cons show ?case using a
    by (cases "err1 = STEM_SUCCESS") auto
qed

lemma one_entry_eq:
  "one_entry = \<lparr>count = 1, value_size = 4, flags = 0,
      buckets = [[], [\<lparr>enum_value = 1, name = Some ''TEST'', value_ptr = Ptr 1 [42, 0, 0, 0]\<rparr>],
                 [], [], [], [], [], [], [], [], [], [], [], [], [], []],
      num_buckets = 16\<rparr>"
  by (simp add: one_entry_def fresh_map_small assoc_eval)

lemma reachable_one_entry: "reachable one_entry"
  unfolding one_entry_def
  by (rule reachable.associated [OF reachable_fresh_map associate_result])
    (simp_all add: STEM_MAX_ENTRIES_def)

lemma no_names_entry_eq:
  "no_names_entry = \<lparr>count = 1, value_size = 4, flags = 1,
      buckets = [[], [\<lparr>enum_value = 1, name = None, value_ptr = Ptr 1 [100, 0, 0, 0]\<rparr>],
                 [], [], [], [], [], [], [], [], [], [], [], [], [], []],
      num_buckets = 16\<rparr>"
  by (simp add: no_names_entry_def fresh_map_small assoc_eval)

text \<open>
  Claim C8. On a map whose flags contain \<open>STEM_FLAGS_NO_NAMES\<close> (the flags are fixed by
  \<open>stdem_create_ex\<close>), \<open>stdem_get_name_ex\<close> returns no name and reports
  \<open>STEM_ERROR_NOT_FOUND\<close> for every key, whether or not the key has an entry.
\<close>

theorem get_name_no_names:
  assumes "flags m AND STEM_FLAGS_NO_NAMES \<noteq> 0"
  shows "stdem_get_name_ex m v = (STEM_ERROR_NOT_FOUND, None)"
  using assms by (simp add: stdem_get_name_ex_def)

text \<open>Witness for C8: the map of \<open>test_flags\<close> has an entry for key 1, and the lookup of
  its name reports \<open>STEM_ERROR_NOT_FOUND\<close>.\<close>

theorem get_name_no_names_witness:
  "flags no_names_entry AND STEM_FLAGS_NO_NAMES \<noteq> 0 \<and>
   fst (stdem_get_value_ex no_names_entry 1) = STEM_SUCCESS \<and>
   stdem_get_name_ex no_names_entry 1 = (STEM_ERROR_NOT_FOUND, None)"
proof -
  have f: "flags no_names_entry AND STEM_FLAGS_NO_NAMES \<noteq> 0"
    by (simp add: no_names_entry_eq STEM_FLAGS_NO_NAMES_def)
  have "fst (stdem_get_value_ex no_names_entry 1) = STEM_SUCCESS"
    by (simp add: no_names_entry_eq stdem_get_value_ex_def stem_find_entry_def bucket_idx_def
        stem_hash_int_def)
  with f get_name_no_names [OF f, of 1] show ?thesis by simp
qed

text \<open>
  Claim C2. In every reachable map no two live entries share a key, and associating a
  key that is already present returns \<open>STEM_ERROR_ALREADY_EXISTS\<close> and leaves the map
  (hence the existing entry's value and name) and the allocator as they were.
\<close>

theorem unique_keys:
  assumes "reachable m"
  shows "distinct (map enum_value (all_entries m)) \<and>
         (v \<in> keys_of m \<longrightarrow>
            stdem_associate_ex m v val nm al = (STEM_ERROR_ALREADY_EXISTS, m, al))"
proof -
  have inv: "map_inv m" using assms by (rule reachable_inv)
  then have d: "distinct (map enum_value (all_entries m))"
    by (simp add: map_inv_def)
  have "stdem_associate_ex m v val nm al = (STEM_ERROR_ALREADY_EXISTS, m, al)" if v: "v \<in> keys_of m"
  proof -
    from v have "all_entries m \<noteq> []" by (auto simp: keys_of_def)
    with inv have "flags m AND STEM_FLAGS_READONLY = 0"
      by (auto simp: map_inv_def)
    with inv v show ?thesis by (rule associate_present)
  qed
  with d show ?thesis by blast
qed

text \<open>Witness for C2: the duplicate association of \<open>test_error_handling\<close>.\<close>

theorem unique_keys_witness:
  "reachable one_entry \<and> 1 \<in> keys_of one_entry \<and>
   distinct (map enum_value (all_entries one_entry)) \<and>
   stdem_associate_ex one_entry 1 (Ptr 1000 [42, 0, 0, 0]) (Some ''TEST_DUPLICATE'') alloc_ok =
     (STEM_ERROR_ALREADY_EXISTS, one_entry, alloc_ok)"
proof -
  have k: "1 \<in> keys_of one_entry"
    by (simp add: one_entry_eq keys_of_def all_entries_def)
  from unique_keys [OF reachable_one_entry, of 1 "Ptr 1000 [42, 0, 0, 0]" "Some ''TEST_DUPLICATE''" alloc_ok]
  show ?thesis using k reachable_one_entry by simp
qed


lemma copy_entries_result:
  "copy_entries m es al =
     (fst (copy_entries m es al), fst (snd (copy_entries m es al)), snd (snd (copy_entries m es al)))"
  by simp













section \<open>Claims about values, copy and merge\<close>

lemma copy_flag_masks:
  "(f XOR STEM_FLAGS_COPY_VALUES) AND STEM_FLAGS_NO_NAMES = f AND STEM_FLAGS_NO_NAMES"
  "(f XOR STEM_FLAGS_COPY_VALUES) AND STEM_FLAGS_READONLY = f AND STEM_FLAGS_READONLY"
  by (simp_all add: STEM_FLAGS_COPY_VALUES_def STEM_FLAGS_NO_NAMES_def STEM_FLAGS_READONLY_def
      bit.conj_xor_distrib2)

lemma find_entry_flags [simp]: "stem_find_entry (m\<lparr>flags := f\<rparr>) v = stem_find_entry m v"
  by (simp add: stem_find_entry_def)

lemma all_entries_flags [simp]: "all_entries (m\<lparr>flags := f\<rparr>) = all_entries m"
  by (simp add: all_entries_def)

lemma create_entry_copy_flag:
  "stem_create_entry (m\<lparr>flags := flags m XOR STEM_FLAGS_COPY_VALUES\<rparr>) v val nm al =
   stem_create_entry m v val nm al"
  by (simp add: stem_create_entry_def copy_flag_masks
      cong: option.case_cong prod.case_cong if_cong)

lemma overwrite_entry_copy_flag:
  "overwrite_entry (m\<lparr>flags := flags m XOR STEM_FLAGS_COPY_VALUES\<rparr>) existing entry al =
   overwrite_entry m existing entry al"
  by (simp add: overwrite_entry_def copy_flag_masks
      cong: option.case_cong pointer.case_cong prod.case_cong if_cong)

lemma pre_insert_copy_flag:
  "pre_insert (m\<lparr>flags := f\<rparr>) = (pre_insert m)\<lparr>flags := f\<rparr>"
  by (simp add: pre_insert_def grown_def load_exceeded_def)

lemma link_entry_copy_flag:
  "link_entry (m\<lparr>flags := f\<rparr>) e = (link_entry m e)\<lparr>flags := f\<rparr>"
  by (simp add: link_entry_def Let_def)

lemma associate_copy_flag:
  assumes "stdem_associate_ex m v val nm al = (STEM_SUCCESS, m', al')"
  shows "stdem_associate_ex (m\<lparr>flags := flags m XOR STEM_FLAGS_COPY_VALUES\<rparr>) v val nm al =
         (STEM_SUCCESS, m'\<lparr>flags := flags m' XOR STEM_FLAGS_COPY_VALUES\<rparr>, al')"
proof -
  let ?f = "flags m XOR STEM_FLAGS_COPY_VALUES"
  from assms obtain al1 e where rw: "flags m AND STEM_FLAGS_READONLY = 0"
    and absent: "stem_find_entry m v = None"
    and al1: "al1 = (if load_exceeded m then snd (malloc al) else al)"
    and grow: "load_exceeded m \<longrightarrow> fst (malloc al) \<noteq> None"
    and c: "stem_create_entry (pre_insert m) v val nm al1 = (Inr e, al')"
    and m': "m' = link_entry (pre_insert m) e"
    by (cases rule: associate_E) auto
  have fl: "flags (pre_insert m) = flags m"
    by (simp add: pre_insert_def grown_def)
  have le: "load_exceeded (m\<lparr>flags := ?f\<rparr>) = load_exceeded m"
    by (simp add: load_exceeded_def)
  have c': "stem_create_entry (pre_insert m\<lparr>flags := ?f\<rparr>) v val nm al1 = (Inr e, al')"
    using create_entry_copy_flag [of "pre_insert m" v val nm al1] c fl by simp
  have key: "enum_value e = v"
    using c by (rule stem_create_entry_key)
  have "stdem_associate_ex (m\<lparr>flags := ?f\<rparr>) v val nm al =
        (STEM_SUCCESS, link_entry (pre_insert m\<lparr>flags := ?f\<rparr>) e, al')"
  proof (cases "load_exceeded m")
    case True
    with grow obtain a where ma: "malloc al = (Some a, al1)"
      using al1 by (cases "malloc al") auto
    have r: "stem_resize_map (m\<lparr>flags := ?f\<rparr>) (num_buckets m * 2) al
             = (STEM_SUCCESS, pre_insert m\<lparr>flags := ?f\<rparr>, al1)"
      using True ma load_exceeded_pos [of m]
      by (simp add: stem_resize_map_def pre_insert_def grown_def)
    have t: "STEM_LOAD_FACTOR < rat_of_nat (count m) / rat_of_nat (num_buckets m)"
      using True by (simp add: load_exceeded_def)
    show ?thesis
      using rw absent r c' key t
      by (simp add: stdem_associate_ex_def copy_flag_masks link_entry_def Let_def)
  next
    case False
    then have p: "pre_insert m = m" "al1 = al"
      using al1 by (simp_all add: pre_insert_def)
    have t: "\<not> STEM_LOAD_FACTOR < rat_of_nat (count m) / rat_of_nat (num_buckets m)"
      using False by (simp add: load_exceeded_def)
    show ?thesis
      using rw absent c' key t p
      by (simp add: stdem_associate_ex_def copy_flag_masks link_entry_def Let_def)
  qed
  then show ?thesis
    by (simp add: m' link_entry_copy_flag fl)
qed

text \<open>
  Claim C9. What an association stores is decided by \<open>value_size\<close> alone: with
  \<open>value_size = 0\<close> the entry holds the caller's pointer itself, with \<open>value_size > 0\<close> and
  a non-\<open>NULL\<close> argument a fresh block with a copy of \<open>value_size\<close> bytes (a \<open>NULL\<close>
  argument is stored as \<open>NULL\<close>). \<open>STEM_FLAGS_COPY_VALUES\<close> is not consulted: flipping the
  flag changes neither the outcome of the association nor the overwrite step of a merge.
\<close>

theorem value_mode_by_size:
  assumes "reachable m" and "stdem_associate_ex m v val nm al = (STEM_SUCCESS, m', al')"
  shows "(value_size m = 0 \<longrightarrow> stdem_get_value_ex m' v = (STEM_SUCCESS, val)) \<and>
         (value_size m > 0 \<and> val \<noteq> NullPtr \<longrightarrow>
            (\<exists>a. stdem_get_value_ex m' v = (STEM_SUCCESS, Ptr a (memcpy (value_size m) val)))) \<and>
         stdem_associate_ex (m\<lparr>flags := flags m XOR STEM_FLAGS_COPY_VALUES\<rparr>) v val nm al =
           (STEM_SUCCESS, m'\<lparr>flags := flags m' XOR STEM_FLAGS_COPY_VALUES\<rparr>, al') \<and>
         overwrite_entry (m\<lparr>flags := flags m XOR STEM_FLAGS_COPY_VALUES\<rparr>) existing entry al =
           overwrite_entry m existing entry al"
proof -
  have inv: "map_inv m" using assms(1) by (rule reachable_inv)
  note s = associate_success [OF inv assms(2)]
  from s(2) obtain e where b: "built_from m v val nm e"
    and ms: "mset (all_entries m') = add_mset e (mset (all_entries m))"
    by blast
  have "e \<in> set (all_entries m')"
    using ms by (metis mset_eq_setD set_mset_add_mset_insert set_mset_mset insertI1)
  moreover have "enum_value e = v" using b by (simp add: built_from_def)
  ultimately have f: "stem_find_entry m' v = Some e"
    using s(1) by (simp add: find_entry_Some_iff)
  have "value_size m = 0 \<longrightarrow> stdem_get_value_ex m' v = (STEM_SUCCESS, val)"
    using f b by (simp add: stdem_get_value_ex_def built_from_def)
  moreover have "value_size m > 0 \<and> val \<noteq> NullPtr \<longrightarrow>
            (\<exists>a. stdem_get_value_ex m' v = (STEM_SUCCESS, Ptr a (memcpy (value_size m) val)))"
    using f b by (auto simp: stdem_get_value_ex_def built_from_def)
  ultimately show ?thesis
    using associate_copy_flag [OF assms(2)] overwrite_entry_copy_flag by blast
qed

lemma copy_flag_map_eq:
  "copy_flag_map = \<lparr>count = 0, value_size = 0, flags = 4,
      buckets = [[], [], [], [], [], [], [], [], [], [], [], [], [], [], [], []],
      num_buckets = 16\<rparr>"
  by (simp add: copy_flag_map_def fresh_map_small STEM_FLAGS_COPY_VALUES_def)

text \<open>Witness for C9: a map created with \<open>value_size = 0\<close> and \<open>STEM_FLAGS_COPY_VALUES\<close>
  stores the caller's pointer (address 1000), not a copy.\<close>

theorem value_mode_by_size_witness:
  "reachable copy_flag_map \<and> value_size copy_flag_map = 0 \<and>
   flags copy_flag_map AND STEM_FLAGS_COPY_VALUES \<noteq> 0 \<and>
   fst (stdem_associate_ex copy_flag_map 1 (Ptr 1000 [42, 0, 0, 0]) (Some ''TEST'') alloc_ok)
     = STEM_SUCCESS \<and>
   stdem_get_value_ex
     (fst (snd (stdem_associate_ex copy_flag_map 1 (Ptr 1000 [42, 0, 0, 0]) (Some ''TEST'') alloc_ok))) 1
     = (STEM_SUCCESS, Ptr 1000 [42, 0, 0, 0])"
proof -
  let ?r = "stdem_associate_ex copy_flag_map 1 (Ptr 1000 [42, 0, 0, 0]) (Some ''TEST'') alloc_ok"
  have r: "reachable copy_flag_map"
    unfolding copy_flag_map_def by (rule reachable_fresh_map) (simp_all add: STEM_MAX_ENTRIES_def)
  have ok: "fst ?r = STEM_SUCCESS"
    by (simp add: copy_flag_map_eq assoc_eval)
  then have a: "?r = (STEM_SUCCESS, fst (snd ?r), snd (snd ?r))"
    by (metis prod.collapse)
  have v: "value_size copy_flag_map = 0" "flags copy_flag_map AND STEM_FLAGS_COPY_VALUES \<noteq> 0"
    by (simp_all add: copy_flag_map_eq STEM_FLAGS_COPY_VALUES_def)
  from value_mode_by_size [OF r a] show ?thesis
    using r ok v by simp
qed

lemma memcpy_exact: "length bs = n \<Longrightarrow> memcpy n (Ptr a bs) = bs"
  by simp

lemma strdup_id: "CHR 0x00 \<notin> set s \<Longrightarrow> strdup s = s"
  by (auto simp: strdup_def takeWhile_eq_all_conv)

lemma copy_of_value:
  assumes "copy_of m e e'"
    and "case value_ptr e of NullPtr \<Rightarrow> True | Ptr a bs \<Rightarrow> value_size m = 0 \<or> length bs = value_size m"
  shows "pointee (value_ptr e') = pointee (value_ptr e)"
    and "value_size m = 0 \<Longrightarrow> value_ptr e' = value_ptr e"
proof -
  show "value_size m = 0 \<Longrightarrow> value_ptr e' = value_ptr e"
    using assms(1) by (simp add: copy_of_def built_from_def)
  show "pointee (value_ptr e') = pointee (value_ptr e)"
  proof (cases "value_ptr e")
    case NullPtr
    with assms(1) show ?thesis by (simp add: copy_of_def built_from_def)
  next
    case (Ptr a bs)
    show ?thesis
    proof (cases "value_size m = 0")
      case True
      with assms(1) show ?thesis by (simp add: copy_of_def built_from_def)
    next
      case False
      with assms(2) Ptr have "length bs = value_size m" by simp
      then have "memcpy (value_size m) (Ptr a bs) = bs" by (rule memcpy_exact)
      with assms(1) Ptr False show ?thesis
        by (auto simp add: copy_of_def built_from_def simp del: memcpy.simps)
    qed
  qed
qed

lemma copy_of_name:
  assumes "copy_of m e e'" and "entry_ok (value_size m) (flags m) e"
  shows "name e' = name e"
proof (cases "name e")
  case None
  with assms(1) show ?thesis by (simp add: copy_of_def built_from_def)
next
  case (Some s)
  with assms(2) have "CHR 0x00 \<notin> set s" "flags m AND STEM_FLAGS_NO_NAMES = 0"
    by (simp_all add: entry_ok_def)
  with assms(1) Some show ?thesis
    by (simp add: copy_of_def built_from_def strdup_id)
qed

lemma entry_ok_value:
  "entry_ok vsize fl e \<Longrightarrow>
   (case value_ptr e of NullPtr \<Rightarrow> True | Ptr a bs \<Rightarrow> vsize = 0 \<or> length bs = vsize)"
  by (simp add: entry_ok_def)

lemma inv_entry_ok:
  "map_inv m \<Longrightarrow> e \<in> set (all_entries m) \<Longrightarrow> entry_ok (value_size m) (flags m) e"
  by (simp add: map_inv_def list_all_iff)

text \<open>
  Claim C5. A successful \<open>stdem_copy\<close> of a reachable map \<open>m\<close> (which is then populated:
  an empty map cannot be copied) yields a map with the same count, and for every key of
  \<open>m\<close> the lookups of the name agree and the lookups of the value succeed in both maps
  with equal bytes behind the stored pointers; with \<open>value_size = 0\<close> the stored
  pointers themselves are equal.
\<close>

theorem copy_round_trip:
  assumes "reachable m" and "stdem_copy m al = (Inr m', al')"
  shows "0 < count m \<and> count m' = count m \<and>
         (\<forall>v \<in> keys_of m.
            stdem_get_name_ex m' v = stdem_get_name_ex m v \<and>
            fst (stdem_get_value_ex m v) = STEM_SUCCESS \<and>
            fst (stdem_get_value_ex m' v) = STEM_SUCCESS \<and>
            pointee (snd (stdem_get_value_ex m' v)) = pointee (snd (stdem_get_value_ex m v)) \<and>
            (value_size m = 0 \<longrightarrow> stdem_get_value_ex m' v = stdem_get_value_ex m v))"
proof -
  have inv: "map_inv m" using assms(1) by (rule reachable_inv)
  from assms(2) obtain new_map al1 where
    c: "stdem_create_ex (count m) (value_size m) (flags m) al = (Inr new_map, al1)"
    and r: "copy_entries new_map (all_entries m) al1 = (STEM_SUCCESS, m', al')"
    by (rule copy_E)
  note n = create_inv [OF c]
  note s = copy_entries_success [OF n(1) r]
  note l = copy_entries_lookup [OF n(1) r]
  have cnt: "count m' = count m"
    using s n(3) inv by (simp add: map_inv_def)
  have pos: "0 < count m"
    using create_E(2) [OF c] .
  have fl: "flags m' = flags m" "flags new_map = flags m" "value_size new_map = value_size m"
    using s n by simp_all
  have each: "stdem_get_name_ex m' v = stdem_get_name_ex m v \<and>
            fst (stdem_get_value_ex m v) = STEM_SUCCESS \<and>
            fst (stdem_get_value_ex m' v) = STEM_SUCCESS \<and>
            pointee (snd (stdem_get_value_ex m' v)) = pointee (snd (stdem_get_value_ex m v)) \<and>
            (value_size m = 0 \<longrightarrow> stdem_get_value_ex m' v = stdem_get_value_ex m v)"
    if v: "v \<in> keys_of m" for v
  proof -
    from v obtain e where e: "e \<in> set (all_entries m)" "enum_value e = v"
      by (auto simp: keys_of_def)
    then have f: "stem_find_entry m v = Some e"
      using inv by (simp add: find_entry_Some_iff)
    from l(1) [OF e(1)] e(2) obtain e' where f': "stem_find_entry m' v = Some e'"
      and cp: "copy_of new_map e e'"
      by auto
    have ok: "entry_ok (value_size new_map) (flags new_map) e"
      using inv_entry_ok [OF inv e(1)] fl by simp
    note val = copy_of_value [OF cp entry_ok_value [OF ok]]
    note nm = copy_of_name [OF cp ok]
    show ?thesis
      using f f' val nm fl
      by (simp add: stdem_get_name_ex_def stdem_get_value_ex_def)
  qed
  with pos cnt show ?thesis by blast
qed

text \<open>
  Claim C6. For reachable maps \<open>A\<close> and \<open>B\<close> and a key present in both, a successful
  \<open>stdem_merge\<close> (which requires equal value sizes) yields a map where the lookup of
  that key succeeds with the bytes of \<open>A\<close>'s value when \<open>overwrite\<close> is false and with the
  bytes of \<open>B\<close>'s value when it is true; with \<open>value_size = 0\<close> the stored pointer itself
  is \<open>A\<close>'s, respectively \<open>B\<close>'s.
\<close>

theorem merge_overlap:
  assumes "reachable A" and "reachable B" and "v \<in> keys_of A" and "v \<in> keys_of B"
    and "stdem_merge A B overwrite al = Some (Inr M, al')"
  shows "value_size A = value_size B \<and>
         fst (stdem_get_value_ex M v) = STEM_SUCCESS \<and>
         pointee (snd (stdem_get_value_ex M v)) =
           pointee (snd (stdem_get_value_ex (if overwrite then B else A) v)) \<and>
         (value_size A = 0 \<longrightarrow>
            stdem_get_value_ex M v = stdem_get_value_ex (if overwrite then B else A) v)"
proof -
  have invA: "map_inv A" and invB: "map_inv B"
    using assms(1,2) by (simp_all add: reachable_inv)
  from assms(5) obtain new_map al1 new_map1 al2 where
    vs: "value_size A = value_size B"
    and c: "stdem_create_ex (count A + count B) (value_size A) (flags A OR flags B) al = (Inr new_map, al1)"
    and p1: "copy_entries new_map (all_entries A) al1 = (STEM_SUCCESS, new_map1, al2)"
    and p2: "merge_entries overwrite new_map1 (all_entries B) al2 = Some (STEM_SUCCESS, M, al')"
    by (rule merge_E)
  note n = create_inv [OF c]
  note s1 = copy_entries_success [OF n(1) p1]
  note l1 = copy_entries_lookup [OF n(1) p1]
  have inv1: "map_inv new_map1" using s1 by simp
  have size1: "value_size new_map1 = value_size A" "value_size new_map = value_size A"
    using s1 n by simp_all
  have dB: "distinct (map enum_value (all_entries B))"
    using invB by (simp add: map_inv_def)
  note s2 = merge_entries_success [OF inv1 p2 dB]
  from assms(3) obtain a where a: "a \<in> set (all_entries A)" "enum_value a = v"
    by (auto simp: keys_of_def)
  then have fA: "stem_find_entry A v = Some a"
    using invA by (simp add: find_entry_Some_iff)
  from assms(4) obtain b where b: "b \<in> set (all_entries B)" "enum_value b = v"
    by (auto simp: keys_of_def)
  then have fB: "stem_find_entry B v = Some b"
    using invB by (simp add: find_entry_Some_iff)
  from l1(1) [OF a(1)] a(2) obtain a' where f1: "stem_find_entry new_map1 v = Some a'"
    and cpa: "copy_of new_map a a'"
    by auto
  have oka: "case value_ptr a of NullPtr \<Rightarrow> True
             | Ptr x bs \<Rightarrow> value_size new_map = 0 \<or> length bs = value_size new_map"
    using entry_ok_value [OF inv_entry_ok [OF invA a(1)]] size1
    by (cases "value_ptr a") simp_all
  have okb: "case value_ptr b of NullPtr \<Rightarrow> True
             | Ptr x bs \<Rightarrow> value_size new_map1 = 0 \<or> length bs = value_size new_map1"
    using entry_ok_value [OF inv_entry_ok [OF invB b(1)]] size1 vs
    by (cases "value_ptr b") simp_all
  show ?thesis
  proof (cases overwrite)
    case False
    have "v \<in> keys_of new_map1"
      using f1 inv1 by (simp add: keys_of_find)
    with s2 False have "stem_find_entry M v = Some a'"
      using f1 by auto
    then show ?thesis
      using False fA vs copy_of_value [OF cpa oka] size1
      by (simp add: stdem_get_value_ex_def)
  next
    case True
    with s2 b obtain b' where fM: "stem_find_entry M v = Some b'" and cpb: "copy_of new_map1 b b'"
      by blast
    then show ?thesis
      using True fB vs copy_of_value [OF cpb okb] size1
      by (simp add: stdem_get_value_ex_def)
  qed
qed

lemma test_map_eq:
  "test_map = \<lparr>count = 5, value_size = 4, flags = 0,
      buckets =
        [[],
         [\<lparr>enum_value = 1, name = Some ''STATE_IDLE'', value_ptr = Ptr 1 [100, 0, 0, 0]\<rparr>],
         [\<lparr>enum_value = 2, name = Some ''STATE_ACTIVE'', value_ptr = Ptr 4 [200, 0, 0, 0]\<rparr>],
         [\<lparr>enum_value = 3, name = Some ''STATE_ERROR'', value_ptr = Ptr 7 [44, 1, 0, 0]\<rparr>],
         [\<lparr>enum_value = 4, name = Some ''STATE_SHUTDOWN'', value_ptr = Ptr 10 [144, 1, 0, 0]\<rparr>],
         [\<lparr>enum_value = 5, name = Some ''STATE_INIT'', value_ptr = Ptr 13 [244, 1, 0, 0]\<rparr>],
         [], [], [], [], [], [], [], [], [], []],
      num_buckets = 16\<rparr>"
  by (simp add: test_map_def test_entries_def fresh_map_small assoc_eval)

lemma reachable_test_map: "reachable test_map"
proof -
  have "reachable (fresh_map 5 4 STEM_FLAGS_NONE)"
    by (rule reachable_fresh_map) (simp_all add: STEM_MAX_ENTRIES_def)
  then show ?thesis
    unfolding test_map_def by (rule copy_entries_reachable [OF _ copy_entries_result])
qed

lemma test_copy_ok: "\<exists>m'. fst (stdem_copy test_map alloc_ok) = Inr m'"
  by (simp add: stdem_copy_def test_map_eq all_entries_def stdem_create_ex_def
      STEM_MAX_ENTRIES_def STEM_DEFAULT_BUCKETS_def assoc_eval)

lemma test_copy_eq:
  "stdem_copy test_map alloc_ok = (Inr test_copy, snd (stdem_copy test_map alloc_ok))"
proof -
  from test_copy_ok obtain m' where "fst (stdem_copy test_map alloc_ok) = Inr m'" ..
  then have "fst (stdem_copy test_map alloc_ok) = Inr test_copy"
    by (simp add: test_copy_def)
  then show ?thesis by (metis prod.collapse)
qed

text \<open>Witness for C5: the copy of the test fixture. Key 3 keeps the name
  \<open>STATE_ERROR\<close> and the bytes of the value 300.\<close>

theorem copy_round_trip_witness:
  "reachable test_map \<and>
   stdem_copy test_map alloc_ok = (Inr test_copy, snd (stdem_copy test_map alloc_ok)) \<and>
   3 \<in> keys_of test_map \<and>
   count test_copy = 5 \<and>
   stdem_get_name_ex test_copy 3 = (STEM_SUCCESS, Some ''STATE_ERROR'') \<and>
   fst (stdem_get_value_ex test_copy 3) = STEM_SUCCESS \<and>
   pointee (snd (stdem_get_value_ex test_copy 3)) = Some [44, 1, 0, 0]"
proof -
  have k: "3 \<in> keys_of test_map"
    by (simp add: test_map_eq keys_of_def all_entries_def)
  have c: "count test_map = 5" by (simp add: test_map_eq)
  have n: "stdem_get_name_ex test_map 3 = (STEM_SUCCESS, Some ''STATE_ERROR'')"
    by (simp add: test_map_eq stdem_get_name_ex_def stem_find_entry_def bucket_idx_def
        stem_hash_int_def STEM_FLAGS_NO_NAMES_def)
  have v: "pointee (snd (stdem_get_value_ex test_map 3)) = Some [44, 1, 0, 0]"
    by (simp add: test_map_eq stdem_get_value_ex_def stem_find_entry_def bucket_idx_def
        stem_hash_int_def)
  from copy_round_trip [OF reachable_test_map test_copy_eq]
  show ?thesis
    using k c n v reachable_test_map test_copy_eq by simp
qed

lemma merge_map1_eq:
  "merge_map1 = \<lparr>count = 3, value_size = 4, flags = 0,
      buckets =
        [[],
         [\<lparr>enum_value = 1, name = Some ''ENTRY_1'', value_ptr = Ptr 1 [100, 0, 0, 0]\<rparr>],
         [\<lparr>enum_value = 2, name = Some ''ENTRY_2'', value_ptr = Ptr 4 [200, 0, 0, 0]\<rparr>],
         [\<lparr>enum_value = 3, name = Some ''ENTRY_3'', value_ptr = Ptr 7 [44, 1, 0, 0]\<rparr>],
         [], [], [], [], [], [], [], [], [], [], [], []],
      num_buckets = 16\<rparr>"
  by (simp add: merge_map1_def fresh_map_small assoc_eval)

lemma merge_map2_eq:
  "merge_map2 = \<lparr>count = 3, value_size = 4, flags = 0,
      buckets =
        [[], [], [],
         [\<lparr>enum_value = 3, name = Some ''ENTRY_3_NEW'', value_ptr = Ptr 1 [144, 1, 0, 0]\<rparr>],
         [\<lparr>enum_value = 4, name = Some ''ENTRY_4'', value_ptr = Ptr 4 [244, 1, 0, 0]\<rparr>],
         [\<lparr>enum_value = 5, name = Some ''ENTRY_5'', value_ptr = Ptr 7 [88, 2, 0, 0]\<rparr>],
         [], [], [], [], [], [], [], [], [], []],
      num_buckets = 16\<rparr>"
  by (simp add: merge_map2_def fresh_map_small assoc_eval)

lemma reachable_merge_maps: "reachable merge_map1" "reachable merge_map2"
proof -
  have r: "reachable (fresh_map 3 4 STEM_FLAGS_NONE)"
    by (rule reachable_fresh_map) (simp_all add: STEM_MAX_ENTRIES_def)
  show "reachable merge_map1"
    unfolding merge_map1_def by (rule copy_entries_reachable [OF r copy_entries_result])
  show "reachable merge_map2"
    unfolding merge_map2_def by (rule copy_entries_reachable [OF r copy_entries_result])
qed

lemma merged_ok:
  "\<exists>M al'. stdem_merge merge_map1 merge_map2 overwrite alloc_ok = Some (Inr M, al')"
  by (cases overwrite)
    (simp_all add: stdem_merge_def merge_map1_eq merge_map2_eq all_entries_def stdem_create_ex_def
      STEM_MAX_ENTRIES_def STEM_DEFAULT_BUCKETS_def overwrite_entry_def store_entry_def
      assoc_eval)

lemma merged_eq:
  "stdem_merge merge_map1 merge_map2 overwrite alloc_ok =
     Some (Inr (merged overwrite), snd (the (stdem_merge merge_map1 merge_map2 overwrite alloc_ok)))"
proof -
  from merged_ok obtain M al' where
    "stdem_merge merge_map1 merge_map2 overwrite alloc_ok = Some (Inr M, al')" by blast
  then show ?thesis by (simp add: merged_def)
qed

text \<open>Witness for C6: the two merges of \<open>test_merge\<close>. Key 3 is in both maps; without
  overwrite the merged value is 300 (the first map's), with overwrite 400 (the second
  map's).\<close>

theorem merge_overlap_witness:
  "reachable merge_map1 \<and> reachable merge_map2 \<and>
   3 \<in> keys_of merge_map1 \<and> 3 \<in> keys_of merge_map2 \<and>
   stdem_merge merge_map1 merge_map2 False alloc_ok =
     Some (Inr (merged False), snd (the (stdem_merge merge_map1 merge_map2 False alloc_ok))) \<and>
   stdem_merge merge_map1 merge_map2 True alloc_ok =
     Some (Inr (merged True), snd (the (stdem_merge merge_map1 merge_map2 True alloc_ok))) \<and>
   pointee (snd (stdem_get_value_ex (merged False) 3)) = Some [44, 1, 0, 0] \<and>
   pointee (snd (stdem_get_value_ex (merged True) 3)) = Some [144, 1, 0, 0]"
proof -
  have k: "3 \<in> keys_of merge_map1" "3 \<in> keys_of merge_map2"
    by (simp_all add: merge_map1_eq merge_map2_eq keys_of_def all_entries_def)
  have v: "pointee (snd (stdem_get_value_ex merge_map1 3)) = Some [44, 1, 0, 0]"
    "pointee (snd (stdem_get_value_ex merge_map2 3)) = Some [144, 1, 0, 0]"
    by (simp_all add: merge_map1_eq merge_map2_eq stdem_get_value_ex_def stem_find_entry_def
        bucket_idx_def stem_hash_int_def)
  note r = reachable_merge_maps
  from merge_overlap [OF r k merged_eq [of False]] merge_overlap [OF r k merged_eq [of True]]
  show ?thesis
    using k v r merged_eq by simp
qed

end
